theory Spec2Isabelle
  imports Main "HOL-Library.Sublist"
begin

section \<open>Parsed JSON values and the Python operations applied to them\<close>

text \<open>
  The validators read a configuration with \<open>json.load\<close> and then treat it as untyped
  Python data.  A parsed document is a \<open>json\<close> value; Python's \<open>None\<close> is \<open>JNull\<close>.
  Number literals are restricted to integers.  A Python \<open>dict\<close> is an association list
  in insertion order; a dict built by the parser has pairwise distinct keys, which the
  theorems below assume wherever a lookup and an iteration have to agree.
\<close>

datatype json =
    JNull
  | JBool bool
  | JNum int
  | JStr string
  | JList "json list"
  | JObj "(string \<times> json) list"

text \<open>Every \<open>raise\<close> of the interpreter is a value; \<open>Raised\<close> is an exception thrown by
  a collaborator, carrying its text.\<close>

datatype exn = TypeError | AttributeError | KeyError | IndexError | Raised string

definition bind_e :: "exn + 'a \<Rightarrow> ('a \<Rightarrow> exn + 'b) \<Rightarrow> exn + 'b" where
  "bind_e m f = (case m of Inl e \<Rightarrow> Inl e | Inr x \<Rightarrow> f x)"

text \<open>A \<open>for\<close> loop over a list whose body updates a state and may raise.\<close>

fun for_each :: "('a \<Rightarrow> 's \<Rightarrow> exn + 's) \<Rightarrow> 'a list \<Rightarrow> 's \<Rightarrow> exn + 's" where
  "for_each body [] s = Inr s"
| "for_each body (x # xs) s = (case body x s of Inl e \<Rightarrow> Inl e | Inr s' \<Rightarrow> for_each body xs s')"

text \<open>Truth value of an object in a condition.\<close>

fun truthy :: "json \<Rightarrow> bool" where
  "truthy JNull = False"
| "truthy (JBool b) = b"
| "truthy (JNum n) = (n \<noteq> 0)"
| "truthy (JStr s) = (s \<noteq> [])"
| "truthy (JList xs) = (xs \<noteq> [])"
| "truthy (JObj kvs) = (kvs \<noteq> [])"

text \<open>Hashable values as set members and dict keys: \<open>True\<close> and \<open>1\<close> are the same key,
  lists and dicts are unhashable.\<close>

datatype hkey = HNone | HNum int | HStr string

fun hash_key :: "json \<Rightarrow> exn + hkey" where
  "hash_key JNull = Inr HNone"
| "hash_key (JBool b) = Inr (HNum (if b then 1 else 0))"
| "hash_key (JNum n) = Inr (HNum n)"
| "hash_key (JStr s) = Inr (HStr s)"
| "hash_key (JList xs) = Inl TypeError"
| "hash_key (JObj kvs) = Inl TypeError"

text \<open>The operator \<open>==\<close> on parsed values.\<close>

fun py_eq :: "json \<Rightarrow> json \<Rightarrow> bool" where
  "py_eq (JList xs) (JList ys) = list_all2 py_eq xs ys"
| "py_eq (JObj xs) (JObj ys) =
     (length xs = length ys \<and>
      list_all (\<lambda>(k, v). case map_of ys k of None \<Rightarrow> False | Some w \<Rightarrow> py_eq v w) xs)"
| "py_eq a b = (case (hash_key a, hash_key b) of (Inr k, Inr l) \<Rightarrow> k = l | _ \<Rightarrow> False)"

text \<open>\<open>p in s\<close> on two strings.\<close>

fun str_contains :: "string \<Rightarrow> string \<Rightarrow> bool" where
  "str_contains p [] = (p = [])"
| "str_contains p (c # cs) = (prefix p (c # cs) \<or> str_contains p cs)"

text \<open>\<open>x in c\<close>.\<close>

fun py_in :: "json \<Rightarrow> json \<Rightarrow> exn + bool" where
  "py_in x (JObj kvs) =
     (case hash_key x of Inl e \<Rightarrow> Inl e
      | Inr k \<Rightarrow> Inr (case k of HStr s \<Rightarrow> s \<in> set (map fst kvs) | _ \<Rightarrow> False))"
| "py_in x (JList ys) = Inr (list_ex (py_eq x) ys)"
| "py_in x (JStr s) = (case x of JStr p \<Rightarrow> Inr (str_contains p s) | _ \<Rightarrow> Inl TypeError)"
| "py_in x _ = Inl TypeError"

text \<open>\<open>d.get(key, default)\<close>: only a dict has the method.\<close>

fun py_get :: "json \<Rightarrow> string \<Rightarrow> json \<Rightarrow> exn + json" where
  "py_get (JObj kvs) key dflt = Inr (case map_of kvs key of None \<Rightarrow> dflt | Some v \<Rightarrow> v)"
| "py_get _ key dflt = Inl AttributeError"

text \<open>\<open>d.items()\<close>.\<close>

fun py_items :: "json \<Rightarrow> exn + (string \<times> json) list" where
  "py_items (JObj kvs) = Inr kvs"
| "py_items _ = Inl AttributeError"

text \<open>The elements a \<open>for\<close> loop draws from a value.\<close>

fun py_iter :: "json \<Rightarrow> exn + json list" where
  "py_iter (JList xs) = Inr xs"
| "py_iter (JStr s) = Inr (map (\<lambda>c. JStr [c]) s)"
| "py_iter (JObj kvs) = Inr (map (\<lambda>kv. JStr (fst kv)) kvs)"
| "py_iter _ = Inl TypeError"

text \<open>Indexing a sequence with a possibly negative integer.\<close>

definition seq_index :: "'a list \<Rightarrow> int \<Rightarrow> exn + 'a" where
  "seq_index xs i =
     (if 0 \<le> i \<and> i < int (length xs) then Inr (xs ! nat i)
      else if i < 0 \<and> - int (length xs) \<le> i then Inr (xs ! nat (int (length xs) + i))
      else Inl IndexError)"

text \<open>\<open>c[x]\<close>.\<close>

fun py_subscript :: "json \<Rightarrow> json \<Rightarrow> exn + json" where
  "py_subscript (JObj kvs) x =
     (case hash_key x of Inl e \<Rightarrow> Inl e
      | Inr k \<Rightarrow> (case k of HStr s \<Rightarrow> (case map_of kvs s of None \<Rightarrow> Inl KeyError | Some v \<Rightarrow> Inr v)
                 | _ \<Rightarrow> Inl KeyError))"
| "py_subscript (JList ys) (JNum i) = seq_index ys i"
| "py_subscript (JList ys) (JBool b) = seq_index ys (if b then 1 else 0)"
| "py_subscript (JStr s) (JNum i) = map_sum id (\<lambda>c. JStr [c]) (seq_index s i)"
| "py_subscript (JStr s) (JBool b) = map_sum id (\<lambda>c. JStr [c]) (seq_index s (if b then 1 else 0))"
| "py_subscript _ _ = Inl TypeError"

fun is_list :: "json \<Rightarrow> bool" where
  "is_list (JList xs) = True"
| "is_list _ = False"

fun is_dict :: "json \<Rightarrow> bool" where
  "is_dict (JObj kvs) = True"
| "is_dict _ = False"

fun is_str :: "json \<Rightarrow> bool" where
  "is_str (JStr s) = True"
| "is_str _ = False"

fun is_str_list :: "json \<Rightarrow> bool" where
  "is_str_list (JList xs) = list_all is_str xs"
| "is_str_list _ = False"

section \<open>The configuration validator (validate-config.py)\<close>

text \<open>
  A finding is a formatted string in the source.  Here it is a constructor that carries
  the values interpolated into the text, in the order of the format string.
\<close>

datatype diagnostic =
    MissingSection string
  | OutputsNotList string
  | OutputNotDict string nat
  | OutputMissingField string nat string
  | NamingConvention string json json
  | DependenciesNotList string
  | DependencyNotDict string nat
  | DependencyMissingField string nat string
  | RequiredOutputsNotList string nat
  | OptionalOutputsNotList string nat
  | TargetOutputsNotFound json
  | RequiredOutputMissing string json json
  | OptionalOutputMissing string json json
  | DuplicateExportName json string string
  | CircularDependency "string list"

text \<open>The two lists of a \<open>ConfigValidator\<close>.\<close>

record validator =
  v_errors :: "diagnostic list"
  v_warnings :: "diagnostic list"

definition new_validator :: validator where
  "new_validator = \<lparr> v_errors = [], v_warnings = [] \<rparr>"

definition add_error :: "diagnostic \<Rightarrow> validator \<Rightarrow> validator" where
  "add_error d v = v \<lparr> v_errors := v_errors v @ [d] \<rparr>"

definition add_warning :: "diagnostic \<Rightarrow> validator \<Rightarrow> validator" where
  "add_warning d v = v \<lparr> v_warnings := v_warnings v @ [d] \<rparr>"

text \<open>A check carries its local flag \<open>valid\<close> together with the validator.\<close>

type_synonym check_state = "bool \<times> validator"

definition flag_error :: "diagnostic \<Rightarrow> check_state \<Rightarrow> check_state" where
  "flag_error d st = (False, add_error d (snd st))"

definition note_warning :: "diagnostic \<Rightarrow> check_state \<Rightarrow> check_state" where
  "note_warning d st = (fst st, add_warning d (snd st))"

subsection \<open>\<open>validate_structure\<close>\<close>

definition validate_structure :: "json \<Rightarrow> validator \<Rightarrow> exn + check_state" where
  "validate_structure config v =
     bind_e (py_in (JStr ''stack_outputs'') config) (\<lambda>has_outputs.
       if \<not> has_outputs then Inr (False, add_error (MissingSection ''stack_outputs'') v)
       else bind_e (py_in (JStr ''dependencies'') config) (\<lambda>has_deps.
         if \<not> has_deps then Inr (False, add_error (MissingSection ''dependencies'') v)
         else Inr (True, v)))"

subsection \<open>\<open>validate_stack_outputs\<close>\<close>

text \<open>The key test \<open>field in d\<close> on a dict.\<close>

fun has_key :: "string \<Rightarrow> json \<Rightarrow> bool" where
  "has_key k (JObj kvs) = (k \<in> set (map fst kvs))"
| "has_key k _ = False"

text \<open>\<open>'{ProjectName}' in export_name and '{Environment}' in export_name\<close>; the second
  test runs only after the first succeeded.\<close>

definition follows_convention :: "json \<Rightarrow> exn + bool" where
  "follows_convention export_name =
     bind_e (py_in (JStr ''{ProjectName}'') export_name) (\<lambda>a.
       if a then py_in (JStr ''{Environment}'') export_name else Inr False)"

definition output_required_fields :: "string list" where
  "output_required_fields = [''name'', ''description'', ''value'', ''export_name'']"

definition check_output :: "string \<Rightarrow> nat \<times> json \<Rightarrow> check_state \<Rightarrow> exn + check_state" where
  "check_output stack entry st =
     (let i = fst entry; output = snd entry in
      if \<not> is_dict output then Inr (flag_error (OutputNotDict stack i) st)
      else
        let st1 = fold (\<lambda>field s. if \<not> has_key field output
                                     then flag_error (OutputMissingField stack i field) s else s)
                    output_required_fields st
        in bind_e (py_get output ''export_name'' (JStr [])) (\<lambda>export_name.
             if truthy export_name
             then bind_e (follows_convention export_name) (\<lambda>ok.
                    if \<not> ok
                    then bind_e (py_get output ''name'' (JStr ''unknown'')) (\<lambda>n.
                           Inr (note_warning (NamingConvention stack n export_name) st1))
                    else Inr st1)
             else Inr st1))"

definition check_stack_outputs :: "string \<times> json \<Rightarrow> check_state \<Rightarrow> exn + check_state" where
  "check_stack_outputs entry st =
     (case snd entry of
        JList outputs \<Rightarrow> for_each (check_output (fst entry)) (enumerate 0 outputs) st
      | _ \<Rightarrow> Inr (flag_error (OutputsNotList (fst entry)) st))"

definition validate_stack_outputs :: "json \<Rightarrow> validator \<Rightarrow> exn + check_state" where
  "validate_stack_outputs stack_outputs v =
     bind_e (py_items stack_outputs) (\<lambda>items. for_each check_stack_outputs items (True, v))"

subsection \<open>\<open>validate_dependencies\<close>\<close>

definition dependency_required_fields :: "string list" where
  "dependency_required_fields = [''stack_name'', ''required_outputs'']"

text \<open>\<open>d[key]\<close> for a key already known to be present.\<close>

fun field_of :: "json \<Rightarrow> string \<Rightarrow> json" where
  "field_of (JObj kvs) k = (case map_of kvs k of None \<Rightarrow> JNull | Some v \<Rightarrow> v)"
| "field_of _ k = JNull"

definition check_dependency :: "string \<Rightarrow> nat \<times> json \<Rightarrow> check_state \<Rightarrow> check_state" where
  "check_dependency stack entry st =
     (let i = fst entry; dep = snd entry in
      if \<not> is_dict dep then flag_error (DependencyNotDict stack i) st
      else
        let st1 = fold (\<lambda>field s. if \<not> has_key field dep
                                     then flag_error (DependencyMissingField stack i field) s else s)
                    dependency_required_fields st;
            st2 = (if has_key ''required_outputs'' dep \<and> \<not> is_list (field_of dep ''required_outputs'')
                   then flag_error (RequiredOutputsNotList stack i) st1 else st1)
        in if has_key ''optional_outputs'' dep \<and> field_of dep ''optional_outputs'' \<noteq> JNull
                \<and> \<not> is_list (field_of dep ''optional_outputs'')
           then flag_error (OptionalOutputsNotList stack i) st2 else st2)"

definition check_stack_dependencies :: "string \<times> json \<Rightarrow> check_state \<Rightarrow> check_state" where
  "check_stack_dependencies entry st =
     (case snd entry of
        JList deps \<Rightarrow> fold (check_dependency (fst entry)) (enumerate 0 deps) st
      | _ \<Rightarrow> flag_error (DependenciesNotList (fst entry)) st)"

definition validate_dependencies :: "json \<Rightarrow> validator \<Rightarrow> exn + check_state" where
  "validate_dependencies dependencies v =
     bind_e (py_items dependencies) (\<lambda>items. Inr (fold check_stack_dependencies items (True, v)))"

subsection \<open>\<open>detect_circular_dependencies\<close>\<close>

text \<open>The number of keys of the dict that a search has not yet marked as visited; every
  call of \<open>has_path\<close> that goes deeper marks one more.\<close>

definition unvisited :: "(string \<times> json) list \<Rightarrow> hkey set \<Rightarrow> nat" where
  "unvisited D visited = card {s \<in> set (map fst D). HStr s \<notin> visited}"

lemma unvisited_insert:
  assumes "map_of D s = Some v" and "HStr s \<notin> visited"
  shows "unvisited D (insert (HStr s) visited) < unvisited D visited"
proof -
  have "s \<in> set (map fst D)"
    using assms(1) by (metis map_of_eq_None_iff option.distinct(1) set_map)
  then have "{t \<in> set (map fst D). HStr t \<notin> insert (HStr s) visited}
               \<subset> {t \<in> set (map fst D). HStr t \<notin> visited}"
    using assms(2) by auto
  then show ?thesis
    unfolding unvisited_def by (intro psubset_card_mono) auto
qed

text \<open>
  The nested function \<open>has_path\<close> and its loop over the dependencies of \<open>start\<close>.  The list
  \<open>circular_deps\<close> of the enclosing function is passed through as \<open>found\<close>.  Each call
  works on its own copy of \<open>visited\<close>.
\<close>

function has_path ::
    "(string \<times> json) list \<Rightarrow> json \<Rightarrow> json \<Rightarrow> hkey set \<Rightarrow> json list \<Rightarrow> json list list
       \<Rightarrow> exn + (bool \<times> json list list)"
  and has_path_deps ::
    "(string \<times> json) list \<Rightarrow> json list \<Rightarrow> json \<Rightarrow> hkey set \<Rightarrow> json list \<Rightarrow> json list list
       \<Rightarrow> exn + (bool \<times> json list list)"
where
  "has_path D start end visited path found =
     (if py_eq start end \<and> length path > 1 then Inr (True, found @ [path @ [end]])
      else
        case hash_key start of
          Inl e \<Rightarrow> Inl e
        | Inr k \<Rightarrow>
            if k \<in> visited then Inr (False, found)
            else
              (case k of
                 HStr s \<Rightarrow>
                   (case map_of D s of
                      None \<Rightarrow> Inr (False, found)
                    | Some deps \<Rightarrow>
                        (case py_iter deps of
                           Inl e \<Rightarrow> Inl e
                         | Inr ds \<Rightarrow> has_path_deps D ds end (insert k visited) (path @ [start]) found))
               | _ \<Rightarrow> Inr (False, found)))"
| "has_path_deps D [] end visited path found = Inr (False, found)"
| "has_path_deps D (dep # deps) end visited path found =
     (case py_get dep ''stack_name'' JNull of
        Inl e \<Rightarrow> Inl e
      | Inr dep_stack \<Rightarrow>
          if truthy dep_stack
          then (case has_path D dep_stack end visited path found of
                  Inl e \<Rightarrow> Inl e
                | Inr r \<Rightarrow> if fst r then Inr (True, snd r)
                           else has_path_deps D deps end visited path (snd r))
          else has_path_deps D deps end visited path found)"
  by pat_completeness auto

termination
proof (relation "measures
    [\<lambda>x. case x of Inl (D, start, end, visited, path, found) \<Rightarrow> unvisited D visited
               | Inr (D, deps, end, visited, path, found) \<Rightarrow> unvisited D visited,
     \<lambda>x. case x of Inl (D, start, end, visited, path, found) \<Rightarrow> 0
               | Inr (D, deps, end, visited, path, found) \<Rightarrow> Suc (length deps)]")
qed (auto simp: unvisited_insert)

text \<open>The loop that collects \<open>all_stacks\<close>: every truthy \<open>stack_name\<close> is added to the set.\<close>

definition add_target :: "json \<Rightarrow> hkey set \<Rightarrow> exn + hkey set" where
  "add_target dep stacks =
     bind_e (py_get dep ''stack_name'' JNull) (\<lambda>dep_stack.
       if truthy dep_stack then bind_e (hash_key dep_stack) (\<lambda>k. Inr (insert k stacks))
       else Inr stacks)"

definition add_targets :: "json \<Rightarrow> hkey set \<Rightarrow> exn + hkey set" where
  "add_targets deps stacks = bind_e (py_iter deps) (\<lambda>ds. for_each add_target ds stacks)"

definition all_stacks :: "(string \<times> json) list \<Rightarrow> exn + hkey set" where
  "all_stacks D = for_each add_targets (map snd D) (HStr ` set (map fst D))"

text \<open>One round of the final loop, for a member \<open>stack\<close> of \<open>all_stacks\<close>.\<close>

definition probe :: "(string \<times> json) list \<Rightarrow> hkey \<Rightarrow> json list list \<Rightarrow> exn + json list list" where
  "probe D stack found =
     (case stack of
        HStr s \<Rightarrow>
          if s \<in> set (map fst D)
          then map_sum id snd (has_path D (JStr s) (JStr s) {} [] found)
          else Inr found
      | _ \<Rightarrow> Inr found)"

text \<open>
  Python does not fix the order in which a \<open>set\<close> is enumerated.  The order in which the
  final loop meets the members of \<open>all_stacks\<close> is the argument \<open>order\<close>; \<open>enumerates\<close> says
  that a list is such an order.
\<close>

definition detect_circular_dependencies :: "hkey list \<Rightarrow> json \<Rightarrow> exn + json list list" where
  "detect_circular_dependencies order dependencies =
     bind_e (py_items dependencies) (\<lambda>D.
     bind_e (all_stacks D) (\<lambda>stacks.
       for_each (probe D) order []))"

definition enumerates :: "hkey list \<Rightarrow> json \<Rightarrow> bool" where
  "enumerates order dependencies =
     (case py_items dependencies of
        Inl e \<Rightarrow> True
      | Inr D \<Rightarrow> (case all_stacks D of Inl e \<Rightarrow> True
                 | Inr stacks \<Rightarrow> distinct order \<and> set order = stacks))"

subsection \<open>\<open>validate_output_dependency_consistency\<close>\<close>

text \<open>The set comprehension \<open>{output['name'] for output in ...}\<close>.\<close>

definition add_defined :: "json \<Rightarrow> hkey set \<Rightarrow> exn + hkey set" where
  "add_defined output names =
     bind_e (py_subscript output (JStr ''name'')) (\<lambda>n.
     bind_e (hash_key n) (\<lambda>k. Inr (insert k names)))"

definition defined_outputs :: "json \<Rightarrow> exn + hkey set" where
  "defined_outputs outputs = bind_e (py_iter outputs) (\<lambda>outs. for_each add_defined outs {})"

definition check_required ::
  "string \<Rightarrow> json \<Rightarrow> hkey set \<Rightarrow> json \<Rightarrow> check_state \<Rightarrow> exn + check_state" where
  "check_required stack target defined required_output st =
     bind_e (hash_key required_output) (\<lambda>k.
       if k \<notin> defined
       then Inr (flag_error (RequiredOutputMissing stack required_output target) st)
       else Inr st)"

definition check_optional ::
  "string \<Rightarrow> json \<Rightarrow> hkey set \<Rightarrow> json \<Rightarrow> check_state \<Rightarrow> exn + check_state" where
  "check_optional stack target defined optional_output st =
     bind_e (hash_key optional_output) (\<lambda>k.
       if k \<notin> defined
       then Inr (note_warning (OptionalOutputMissing stack optional_output target) st)
       else Inr st)"

definition check_consistency :: "json \<Rightarrow> string \<Rightarrow> json \<Rightarrow> check_state \<Rightarrow> exn + check_state" where
  "check_consistency stack_outputs stack dep st =
     bind_e (py_get dep ''stack_name'' JNull) (\<lambda>target.
     bind_e (py_get dep ''required_outputs'' (JList [])) (\<lambda>required_outputs.
     bind_e (py_get dep ''optional_outputs'' (JList [])) (\<lambda>optional_outputs.
     bind_e (py_in target stack_outputs) (\<lambda>known.
       if \<not> known then Inr (note_warning (TargetOutputsNotFound target) st)
       else
     bind_e (py_subscript stack_outputs target) (\<lambda>outputs.
     bind_e (defined_outputs outputs) (\<lambda>defined.
     bind_e (py_iter required_outputs) (\<lambda>required.
     bind_e (for_each (check_required stack target defined) required st) (\<lambda>st1.
     bind_e (py_iter optional_outputs) (\<lambda>optional.
       for_each (check_optional stack target defined) optional st1)))))))))"

definition check_stack_consistency :: "json \<Rightarrow> string \<times> json \<Rightarrow> check_state \<Rightarrow> exn + check_state" where
  "check_stack_consistency stack_outputs entry st =
     bind_e (py_iter (snd entry)) (\<lambda>deps.
       for_each (check_consistency stack_outputs (fst entry)) deps st)"

definition validate_output_dependency_consistency :: "json \<Rightarrow> validator \<Rightarrow> exn + check_state" where
  "validate_output_dependency_consistency config v =
     bind_e (py_get config ''stack_outputs'' (JObj [])) (\<lambda>stack_outputs.
     bind_e (py_get config ''dependencies'' (JObj [])) (\<lambda>dependencies.
     bind_e (py_items dependencies) (\<lambda>items.
       for_each (check_stack_consistency stack_outputs) items (True, v))))"

subsection \<open>\<open>validate_export_name_uniqueness\<close>\<close>

text \<open>The state of the scan: the flag, the validator and the dict \<open>export_names\<close>.\<close>

type_synonym scan_state = "check_state \<times> (hkey \<rightharpoonup> string)"

definition check_export :: "string \<Rightarrow> json \<Rightarrow> scan_state \<Rightarrow> exn + scan_state" where
  "check_export stack output sc =
     bind_e (py_get output ''export_name'' JNull) (\<lambda>export_name.
       if truthy export_name
       then bind_e (hash_key export_name) (\<lambda>k.
              case snd sc k of
                Some owner \<Rightarrow> Inr (flag_error (DuplicateExportName export_name stack owner) (fst sc), snd sc)
              | None \<Rightarrow> Inr (fst sc, (snd sc)(k \<mapsto> stack)))
       else Inr sc)"

definition check_stack_exports :: "string \<times> json \<Rightarrow> scan_state \<Rightarrow> exn + scan_state" where
  "check_stack_exports entry sc =
     bind_e (py_iter (snd entry)) (\<lambda>outputs. for_each (check_export (fst entry)) outputs sc)"

definition validate_export_name_uniqueness :: "json \<Rightarrow> validator \<Rightarrow> exn + check_state" where
  "validate_export_name_uniqueness stack_outputs v =
     bind_e (py_items stack_outputs) (\<lambda>items.
     bind_e (for_each check_stack_exports items ((True, v), Map.empty)) (\<lambda>sc. Inr (fst sc)))"

subsection \<open>\<open>validate_all\<close>\<close>

text \<open>\<open>' -> '.join(cycle)\<close> accepts strings only.\<close>

fun join_names :: "json list \<Rightarrow> exn + string list" where
  "join_names [] = Inr []"
| "join_names (JStr s # xs) = map_sum id ((#) s) (join_names xs)"
| "join_names (x # xs) = Inl TypeError"

definition report_cycle :: "json list \<Rightarrow> validator \<Rightarrow> exn + validator" where
  "report_cycle cycle v =
     bind_e (join_names cycle) (\<lambda>names. Inr (add_error (CircularDependency names) v))"

definition validate_all :: "hkey list \<Rightarrow> json \<Rightarrow> validator \<Rightarrow> exn + check_state" where
  "validate_all order config v =
     bind_e (validate_structure config v) (\<lambda>st0.
       if \<not> fst st0 then Inr (False, snd st0)
       else
     bind_e (py_get config ''stack_outputs'' (JObj [])) (\<lambda>stack_outputs.
     bind_e (validate_stack_outputs stack_outputs (snd st0)) (\<lambda>st1.
     bind_e (py_get config ''dependencies'' (JObj [])) (\<lambda>dependencies.
     bind_e (validate_dependencies dependencies (snd st1)) (\<lambda>st2.
     bind_e (validate_output_dependency_consistency config (snd st2)) (\<lambda>st3.
     bind_e (validate_export_name_uniqueness stack_outputs (snd st3)) (\<lambda>st4.
     bind_e (detect_circular_dependencies order dependencies) (\<lambda>circular_deps.
       if circular_deps \<noteq> []
       then bind_e (for_each report_cycle circular_deps (snd st4)) (\<lambda>v5. Inr (False, v5))
       else Inr (fst st1 \<and> fst st2 \<and> fst st3 \<and> fst st4, snd st4)))))))))"

subsection \<open>Vocabulary for the properties of the validator\<close>

text \<open>A check state tracks a list of errors when that list is a prefix of the validator's
  errors and the flag is true exactly when nothing was added.\<close>

definition tracks :: "diagnostic list \<Rightarrow> check_state \<Rightarrow> bool" where
  "tracks base st = (prefix base (v_errors (snd st)) \<and> (fst st \<longleftrightarrow> v_errors (snd st) = base))"

text \<open>Example configurations.  A complete output and a dependency entry:\<close>

definition output_entry :: "string \<Rightarrow> string \<Rightarrow> json" where
  "output_entry n e =
     JObj [(''name'', JStr n), (''description'', JStr ''d''), (''value'', JStr ''v''),
           (''export_name'', JStr e)]"

definition dependency_entry :: "string \<Rightarrow> string list \<Rightarrow> string list \<Rightarrow> json" where
  "dependency_entry target required optional =
     JObj [(''stack_name'', JStr target), (''required_outputs'', JList (map JStr required)),
           (''optional_outputs'', JList (map JStr optional))]"

definition config_of :: "(string \<times> json) list \<Rightarrow> (string \<times> json) list \<Rightarrow> json" where
  "config_of outputs deps = JObj [(''stack_outputs'', JObj outputs), (''dependencies'', JObj deps)]"

text \<open>Stack A depends on stack B, which defines Y; X is asked for as an optional output.\<close>

definition optional_missing_config :: json where
  "optional_missing_config =
     config_of [(''B'', JList [output_entry ''Y'' ''{ProjectName}-{Environment}-Y''])]
               [(''A'', JList [dependency_entry ''B'' [] [''X'']])]"

text \<open>
  The dependency graph.  A dependency entry is in order when it is a dict whose
  \<open>stack_name\<close> is a string, and the dependencies are in order when every stack is bound
  to a list of such entries.
\<close>

definition dep_ok :: "json \<Rightarrow> bool" where
  "dep_ok dep = (is_dict dep \<and> is_str (field_of dep ''stack_name''))"

fun deps_ok :: "json \<Rightarrow> bool" where
  "deps_ok (JList ds) = list_all dep_ok ds"
| "deps_ok _ = False"

definition dependencies_ok :: "(string \<times> json) list \<Rightarrow> bool" where
  "dependencies_ok D = list_all (\<lambda>entry. deps_ok (snd entry)) D"

text \<open>The non-empty target names of a list of entries, in order; an entry whose
  \<open>stack_name\<close> is empty is passed over by every loop of the cycle detection.\<close>

fun target_names :: "json list \<Rightarrow> string list" where
  "target_names [] = []"
| "target_names (dep # deps) =
     (case field_of dep ''stack_name'' of
        JStr t \<Rightarrow> if t \<noteq> [] then t # target_names deps else target_names deps
      | _ \<Rightarrow> target_names deps)"

text \<open>The edges \<open>dependent stack \<rightarrow> target stack\<close>.\<close>

definition edges :: "(string \<times> json) list \<Rightarrow> (string \<times> string) set" where
  "edges D = {(s, t). \<exists>ds. map_of D s = Some (JList ds) \<and> t \<in> set (target_names ds)}"

text \<open>The part of a relation whose edges do not start in \<open>V\<close>.\<close>

definition avoiding :: "('a \<times> 'a) set \<Rightarrow> 'a set \<Rightarrow> ('a \<times> 'a) set" where
  "avoiding r V = {(a, b). (a, b) \<in> r \<and> a \<notin> V}"

text \<open>A stack lies on a cycle when the graph without its self-edges leads from the stack
  back to it.\<close>

definition on_cycle :: "(string \<times> json) list \<Rightarrow> string \<Rightarrow> bool" where
  "on_cycle D s = ((s, s) \<in> (edges D - Id)\<^sup>+)"

text \<open>The strings of the visited set.\<close>

definition visited_names :: "hkey set \<Rightarrow> string set" where
  "visited_names V = {s. HStr s \<in> V}"

text \<open>What a search leaves in the list of findings: nothing when it fails, and when it
  succeeds one list that extends the path walked so far and ends in the goal.\<close>

definition reports :: "json list list \<Rightarrow> json list \<Rightarrow> json \<Rightarrow> bool \<Rightarrow> json list list \<Rightarrow> bool" where
  "reports found path goal b found' =
     (if b then \<exists>c. found' = found @ [c] \<and> prefix path c \<and> last c = goal \<and> list_all is_str c
      else found' = found)"

text \<open>The strings among the members of \<open>all_stacks\<close>, in the order of the final loop.\<close>

fun key_names :: "hkey list \<Rightarrow> string list" where
  "key_names [] = []"
| "key_names (HStr s # ks) = s # key_names ks"
| "key_names (k # ks) = key_names ks"

text \<open>A finding for the stack \<open>s\<close>: a list of stack names that starts and ends with \<open>s\<close>.\<close>

definition finding_of :: "string \<Rightarrow> json list \<Rightarrow> bool" where
  "finding_of s c = (hd c = JStr s \<and> last c = JStr s \<and> list_all is_str c)"

text \<open>Example dependency graphs: A \<rightarrow> B \<rightarrow> C \<rightarrow> A, the chain A \<rightarrow> B \<rightarrow> C, and the
  self-dependency A \<rightarrow> A.\<close>

definition triangle_deps :: "(string \<times> json) list" where
  "triangle_deps =
     [(''A'', JList [dependency_entry ''B'' [] []]),
      (''B'', JList [dependency_entry ''C'' [] []]),
      (''C'', JList [dependency_entry ''A'' [] []])]"

definition chain_deps :: "(string \<times> json) list" where
  "chain_deps =
     [(''A'', JList [dependency_entry ''B'' [] []]),
      (''B'', JList [dependency_entry ''C'' [] []])]"

definition self_deps :: "(string \<times> json) list" where
  "self_deps = [(''A'', JList [dependency_entry ''A'' [] []])]"

definition abc_order :: "hkey list" where
  "abc_order = [HStr ''A'', HStr ''B'', HStr ''C'']"

subsection \<open>The consistency rule in the words of the specification\<close>

text \<open>Reading a well-shaped entry: the string behind a value, and the strings of a list.\<close>

fun str_of :: "json \<Rightarrow> string" where
  "str_of (JStr s) = s"
| "str_of _ = []"

fun strs_of :: "json \<Rightarrow> string list" where
  "strs_of (JList xs) = map str_of xs"
| "strs_of _ = []"

definition target_of :: "json \<Rightarrow> string" where
  "target_of dep = str_of (field_of dep ''stack_name'')"

definition required_of :: "json \<Rightarrow> string list" where
  "required_of dep = strs_of (field_of dep ''required_outputs'')"

definition optional_of :: "json \<Rightarrow> string list" where
  "optional_of dep = strs_of (field_of dep ''optional_outputs'')"

text \<open>The set of output names defined on a stack; \<open>None\<close> when the stack has no entry among
  the registered outputs.\<close>

fun items_of :: "json \<Rightarrow> json list" where
  "items_of (JList xs) = xs"
| "items_of _ = []"

definition output_names :: "(string \<times> json) list \<Rightarrow> string \<Rightarrow> string set option" where
  "output_names SO stack =
     (case map_of SO stack of
        None \<Rightarrow> None
      | Some outputs \<Rightarrow> Some (set (map (\<lambda>out. str_of (field_of out ''name'')) (items_of outputs))))"

text \<open>
  The findings for one declared dependency of stack \<open>A\<close>.  If the target has no registered
  outputs: one warning and nothing else.  Otherwise, with \<open>S\<close> the names defined on the
  target: an error for each entry of the required outputs that is not in \<open>S\<close>, and a warning
  for each entry of the optional outputs that is not in \<open>S\<close>.
\<close>

definition edge_errors :: "(string \<times> json) list \<Rightarrow> string \<Rightarrow> json \<Rightarrow> diagnostic list" where
  "edge_errors SO A dep =
     (case output_names SO (target_of dep) of
        None \<Rightarrow> []
      | Some S \<Rightarrow> map (\<lambda>r. RequiredOutputMissing A (JStr r) (JStr (target_of dep)))
                    (filter (\<lambda>r. r \<notin> S) (required_of dep)))"

definition edge_warnings :: "(string \<times> json) list \<Rightarrow> string \<Rightarrow> json \<Rightarrow> diagnostic list" where
  "edge_warnings SO A dep =
     (case output_names SO (target_of dep) of
        None \<Rightarrow> [TargetOutputsNotFound (JStr (target_of dep))]
      | Some S \<Rightarrow> map (\<lambda>opt. OptionalOutputMissing A (JStr opt) (JStr (target_of dep)))
                    (filter (\<lambda>opt. opt \<notin> S) (optional_of dep)))"




text \<open>Adding findings to a check state.\<close>

definition emit :: "diagnostic list \<Rightarrow> diagnostic list \<Rightarrow> check_state \<Rightarrow> check_state" where
  "emit es ws st =
     (fst st \<and> es = [],
      (snd st) \<lparr> v_errors := v_errors (snd st) @ es, v_warnings := v_warnings (snd st) @ ws \<rparr>)"









subsection \<open>The export-name rule in the words of the specification\<close>














subsection \<open>Adding an output to a stack\<close>







text \<open>The verdict and the errors of a check state; two states agree when they have the
  same verdict and the same errors.\<close>

definition verdict_and_errors :: "check_state \<Rightarrow> bool \<times> diagnostic list" where
  "verdict_and_errors st = (fst st, v_errors (snd st))"

definition agree :: "check_state \<Rightarrow> check_state \<Rightarrow> bool" where
  "agree st st' = (verdict_and_errors st = verdict_and_errors st')"





section \<open>The stack registry (cross-stack-manager.py)\<close>

text \<open>
  The two dataclasses.  Python does not enforce the annotations (\<open>str\<close>, \<open>List[str]\<close>,
  \<open>Optional[List[str]]\<close>), and \<open>import_configuration\<close> stores whatever the file holds, so
  a field holds a parsed value; \<open>typed_output\<close> and \<open>typed_dependency\<close> below say when
  the annotations are met.  A field that was never set is \<open>JNull\<close>.
\<close>

record StackOutput =
  so_name :: json
  so_description :: json
  so_value :: json
  so_export_name :: json
  so_conditions :: json

record StackDependency =
  sd_stack_name :: json
  sd_required_outputs :: json
  sd_optional_outputs :: json

text \<open>The two dicts of a \<open>CrossStackManager\<close>, keyed by stack name.\<close>

record manager =
  m_stack_outputs :: "(string \<times> StackOutput list) list"
  m_dependencies :: "(string \<times> StackDependency list) list"

definition empty_manager :: manager where
  "empty_manager = \<lparr> m_stack_outputs = [], m_dependencies = [] \<rparr>"

text \<open>\<open>d[k] = v\<close>: an existing key keeps its place, a new key goes last.\<close>

fun dict_set :: "'k \<Rightarrow> 'v \<Rightarrow> ('k \<times> 'v) list \<Rightarrow> ('k \<times> 'v) list" where
  "dict_set k v [] = [(k, v)]"
| "dict_set k v (kv # kvs) = (if fst kv = k then (k, v) # kvs else kv # dict_set k v kvs)"

definition register_stack_outputs :: "string \<Rightarrow> StackOutput list \<Rightarrow> manager \<Rightarrow> manager" where
  "register_stack_outputs stack outputs m =
     m \<lparr> m_stack_outputs := dict_set stack outputs (m_stack_outputs m) \<rparr>"

text \<open>A missing key is first bound to the empty list, then the dependency is appended.\<close>

definition register_dependency :: "string \<Rightarrow> StackDependency \<Rightarrow> manager \<Rightarrow> manager" where
  "register_dependency stack dep m =
     (let deps = (if stack \<notin> set (map fst (m_dependencies m))
                  then dict_set stack [] (m_dependencies m) else m_dependencies m);
          old = (case map_of deps stack of None \<Rightarrow> [] | Some ds \<Rightarrow> ds)
      in m \<lparr> m_dependencies := dict_set stack (old @ [dep]) deps \<rparr>)"

text \<open>The dict written for one output and for one dependency by \<open>export_configuration\<close>;
  \<open>x or []\<close> keeps a truthy \<open>x\<close> and is the empty list otherwise.\<close>

definition output_to_json :: "StackOutput \<Rightarrow> json" where
  "output_to_json out =
     JObj [(''name'', so_name out), (''description'', so_description out),
           (''value'', so_value out), (''export_name'', so_export_name out),
           (''conditions'', so_conditions out)]"

definition or_empty_list :: "json \<Rightarrow> json" where
  "or_empty_list x = (if truthy x then x else JList [])"

definition dependency_to_json :: "StackDependency \<Rightarrow> json" where
  "dependency_to_json dep =
     JObj [(''stack_name'', sd_stack_name dep),
           (''required_outputs'', sd_required_outputs dep),
           (''optional_outputs'', or_empty_list (sd_optional_outputs dep))]"

text \<open>\<open>export_configuration\<close> up to the file: the value handed to \<open>json.dump\<close>.  Writing
  it and reading it back with \<open>json.load\<close> is taken to return the same value.\<close>

definition export_configuration :: "manager \<Rightarrow> json" where
  "export_configuration m =
     JObj [(''stack_outputs'',
              JObj (map (\<lambda>(stack, outputs). (stack, JList (map output_to_json outputs)))
                     (m_stack_outputs m))),
           (''dependencies'',
              JObj (map (\<lambda>(stack, deps). (stack, JList (map dependency_to_json deps)))
                     (m_dependencies m)))]"

text \<open>\<open>import_configuration\<close> from the value \<open>json.load\<close> returned.\<close>

definition output_of_json :: "json \<Rightarrow> exn + StackOutput" where
  "output_of_json od =
     bind_e (py_subscript od (JStr ''name'')) (\<lambda>n.
     bind_e (py_subscript od (JStr ''description'')) (\<lambda>d.
     bind_e (py_subscript od (JStr ''value'')) (\<lambda>v.
     bind_e (py_subscript od (JStr ''export_name'')) (\<lambda>e.
     bind_e (py_get od ''conditions'' JNull) (\<lambda>c.
       Inr \<lparr> so_name = n, so_description = d, so_value = v, so_export_name = e,
             so_conditions = c \<rparr>)))))"

definition dependency_of_json :: "json \<Rightarrow> exn + StackDependency" where
  "dependency_of_json dd =
     bind_e (py_subscript dd (JStr ''stack_name'')) (\<lambda>s.
     bind_e (py_subscript dd (JStr ''required_outputs'')) (\<lambda>r.
     bind_e (py_get dd ''optional_outputs'' JNull) (\<lambda>opt.
       Inr \<lparr> sd_stack_name = s, sd_required_outputs = r, sd_optional_outputs = opt \<rparr>)))"

text \<open>The inner loop that builds the list \<open>outputs\<close>.\<close>

fun outputs_of_json :: "json list \<Rightarrow> StackOutput list \<Rightarrow> exn + StackOutput list" where
  "outputs_of_json [] acc = Inr acc"
| "outputs_of_json (od # ods) acc =
     (case output_of_json od of Inl e \<Rightarrow> Inl e | Inr out \<Rightarrow> outputs_of_json ods (acc @ [out]))"

definition import_stack_outputs :: "string \<times> json \<Rightarrow> manager \<Rightarrow> exn + manager" where
  "import_stack_outputs entry m =
     bind_e (py_iter (snd entry)) (\<lambda>outputs_data.
     bind_e (outputs_of_json outputs_data []) (\<lambda>outputs.
       Inr (register_stack_outputs (fst entry) outputs m)))"

definition import_dependency :: "string \<Rightarrow> json \<Rightarrow> manager \<Rightarrow> exn + manager" where
  "import_dependency stack dd m =
     bind_e (dependency_of_json dd) (\<lambda>dep. Inr (register_dependency stack dep m))"

definition import_dependencies :: "string \<times> json \<Rightarrow> manager \<Rightarrow> exn + manager" where
  "import_dependencies entry m =
     bind_e (py_iter (snd entry)) (\<lambda>deps_data. for_each (import_dependency (fst entry)) deps_data m)"

definition import_configuration :: "json \<Rightarrow> manager \<Rightarrow> exn + manager" where
  "import_configuration config m =
     bind_e (py_get config ''stack_outputs'' (JObj [])) (\<lambda>so.
     bind_e (py_items so) (\<lambda>so_items.
     bind_e (for_each import_stack_outputs so_items m) (\<lambda>m1.
     bind_e (py_get config ''dependencies'' (JObj [])) (\<lambda>ds.
     bind_e (py_items ds) (\<lambda>ds_items.
       for_each import_dependencies ds_items m1)))))"

subsection \<open>Vocabulary for the round trip\<close>

text \<open>Values that meet the annotations \<open>str\<close>, \<open>List[str]\<close> and \<open>Optional[List[str]]\<close>.\<close>

definition is_opt_str_list :: "json \<Rightarrow> bool" where
  "is_opt_str_list x = (x = JNull \<or> is_str_list x)"

definition typed_output :: "StackOutput \<Rightarrow> bool" where
  "typed_output out =
     (is_str (so_name out) \<and> is_str (so_description out) \<and> is_str (so_value out)
      \<and> is_str (so_export_name out) \<and> is_opt_str_list (so_conditions out))"

definition typed_dependency :: "StackDependency \<Rightarrow> bool" where
  "typed_dependency dep =
     (is_str (sd_stack_name dep) \<and> is_str_list (sd_required_outputs dep)
      \<and> is_opt_str_list (sd_optional_outputs dep))"

definition typed_manager :: "manager \<Rightarrow> bool" where
  "typed_manager m =
     (list_all (\<lambda>(stack, outputs). list_all typed_output outputs) (m_stack_outputs m)
      \<and> list_all (\<lambda>(stack, deps). list_all typed_dependency deps) (m_dependencies m))"

text \<open>The keys of both dicts are pairwise distinct, as in every Python dict.\<close>

definition manager_dicts :: "manager \<Rightarrow> bool" where
  "manager_dicts m =
     (distinct (map fst (m_stack_outputs m)) \<and> distinct (map fst (m_dependencies m)))"

text \<open>What a dependency looks like after it was written and read back.\<close>

definition restored_dependency :: "StackDependency \<Rightarrow> StackDependency" where
  "restored_dependency dep =
     dep \<lparr> sd_optional_outputs := or_empty_list (sd_optional_outputs dep) \<rparr>"

definition restored_manager :: "manager \<Rightarrow> manager" where
  "restored_manager m =
     \<lparr> m_stack_outputs = m_stack_outputs m,
       m_dependencies = map (\<lambda>(stack, deps). (stack, map restored_dependency deps))
                          (filter (\<lambda>(stack, deps). deps \<noteq> []) (m_dependencies m)) \<rparr>"

text \<open>The registries that the two registration calls build from an empty one.\<close>

inductive built :: "manager \<Rightarrow> bool" where
  "built empty_manager"
| "built m \<Longrightarrow> built (register_stack_outputs stack outputs m)"
| "built m \<Longrightarrow> built (register_dependency stack dep m)"

text \<open>Example: one dependency whose optional outputs were never set.\<close>

definition unset_optional_manager :: manager where
  "unset_optional_manager =
     register_dependency ''ec2-stack''
       \<lparr> sd_stack_name = JStr ''vpc-stack'', sd_required_outputs = JList [JStr ''VPCId''],
         sd_optional_outputs = JNull \<rparr>
       (register_stack_outputs ''vpc-stack''
          [\<lparr> so_name = JStr ''VPCId'', so_description = JStr ''VPC ID'',
              so_value = JStr ''!Ref VPC'',
              so_export_name = JStr ''{ProjectName}-{Environment}-VPC-ID'',
              so_conditions = JNull \<rparr>]
          empty_manager)"

section \<open>The validation orchestrator (validation-orchestrator.py)\<close>

text \<open>
  The three validators the orchestrator drives are collaborators: each call either
  returns a value or raises, and the text of the exception is all the orchestrator keeps.
\<close>

datatype 'a outcome = Raises string | Returns 'a

record ValidationIssue =
  severity :: string
  category :: string
  message :: string
  location :: "string option"
  suggestion :: "string option"

record ParameterValidationResult =
  parameter_name :: string
  pvr_is_valid :: bool
  pvr_errors :: "string list"
  pvr_warnings :: "string list"
  pvr_value :: json
  expected_type :: string

record validators =
  cf_validate_template :: "string \<Rightarrow> json \<Rightarrow> (bool \<times> ValidationIssue list) outcome"
  pv_load_template :: "string \<Rightarrow> json outcome"
  pv_load_parameters :: "string \<Rightarrow> json outcome"
  pv_validate_json_config_schema :: "json \<Rightarrow> string \<Rightarrow> string list outcome"
  pv_validate_config_consistency :: "json \<Rightarrow> string list outcome"
  pv_validate_parameters :: "json \<Rightarrow> json \<Rightarrow> ParameterValidationResult list outcome"
  wa_validate_cloudformation_template :: "string \<Rightarrow> (bool \<times> string list) outcome"

text \<open>The payload of a pass result: the keys that differ between the three dicts.\<close>

datatype pass_details =
    Issues "ValidationIssue list"
  | ParamDetails "ParameterValidationResult list" "string list"
  | Messages "string list"

text \<open>One pass result.  \<open>info_count\<close> is \<open>None\<close> where the dict has no such key.\<close>

record pass_result =
  status :: string
  is_valid :: bool
  details :: pass_details
  error_count :: nat
  warning_count :: nat
  info_count :: "nat option"

record ValidationSummary =
  template_path :: string
  parameters_path :: "string option"
  timestamp :: string
  overall_status :: string
  syntax_validation :: pass_result
  parameter_validation :: pass_result
  well_architected_validation :: pass_result
  total_issues :: nat
  errors :: nat
  warnings :: nat
  infos :: nat

text \<open>\<open>str(e)\<close>; the interpreter's own wording is not reproduced.\<close>

fun str_of_exn :: "exn \<Rightarrow> string" where
  "str_of_exn TypeError = ''TypeError''"
| "str_of_exn AttributeError = ''AttributeError''"
| "str_of_exn KeyError = ''KeyError''"
| "str_of_exn IndexError = ''IndexError''"
| "str_of_exn (Raised m) = m"

text \<open>A collaborator call inside a \<open>try\<close> block.\<close>

fun call :: "'a outcome \<Rightarrow> exn + 'a" where
  "call (Raises m) = Inl (Raised m)"
| "call (Returns v) = Inr v"

text \<open>The fixed parts of the messages are Japanese in the source; they are written
  here as English glosses.\<close>

definition syntax_failure_prefix :: string where
  "syntax_failure_prefix = ''error during syntax validation: ''"

definition parameter_failure_prefix :: string where
  "parameter_failure_prefix = ''error during parameter validation: ''"

definition wa_failure_prefix :: string where
  "wa_failure_prefix = ''error during Well-Architected validation: ''"

definition template_load_failed :: string where
  "template_load_failed = ''failed to load the template''"

definition parameters_load_failed :: string where
  "parameters_load_failed = ''failed to load the parameter file''"

text \<open>The check mark U+2713 that opens a compliance message, in UTF-8.\<close>

definition check_mark :: string where
  "check_mark = [CHR 0xE2, CHR 0x9C, CHR 0x93]"

text \<open>A path argument of type \<open>Optional[str]\<close> in a condition.\<close>

fun path_given :: "string option \<Rightarrow> bool" where
  "path_given None = False"
| "path_given (Some p) = (p \<noteq> [])"

definition count_severity :: "string \<Rightarrow> ValidationIssue list \<Rightarrow> nat" where
  "count_severity sev issues = length (filter (\<lambda>i. severity i = sev) issues)"

text \<open>The body of the \<open>try\<close> block of \<open>_run_syntax_validation\<close>.\<close>

definition syntax_try :: "validators \<Rightarrow> string \<Rightarrow> string option \<Rightarrow> exn + pass_result" where
  "syntax_try V tpath ppath =
     bind_e (if path_given ppath
             then bind_e (call (pv_load_parameters V (the ppath))) (\<lambda>pvals.
                    if truthy pvals
                    then bind_e (py_in (JStr ''serviceConfigs'') pvals) (\<lambda>has.
                           if has then py_subscript pvals (JStr ''serviceConfigs'') else Inr pvals)
                    else Inr pvals)
             else Inr JNull) (\<lambda>parameter_values.
     bind_e (call (cf_validate_template V tpath parameter_values)) (\<lambda>(valid, issues).
       Inr \<lparr> status = (if valid then ''PASS'' else ''FAIL''),
             is_valid = valid,
             details = Issues issues,
             error_count = count_severity ''error'' issues,
             warning_count = count_severity ''warning'' issues,
             info_count = Some (count_severity ''info'' issues) \<rparr>))"

text \<open>The result built by the \<open>except\<close> clause of \<open>_run_syntax_validation\<close>.\<close>

definition syntax_error_result :: "exn \<Rightarrow> pass_result" where
  "syntax_error_result e =
     \<lparr> status = ''ERROR'', is_valid = False,
       details = Issues [\<lparr> severity = ''error'', category = ''system'',
                            message = syntax_failure_prefix @ str_of_exn e,
                            location = None, suggestion = None \<rparr>],
       error_count = 1, warning_count = 0, info_count = Some 0 \<rparr>"

definition run_syntax_validation :: "validators \<Rightarrow> string \<Rightarrow> string option \<Rightarrow> pass_result" where
  "run_syntax_validation V tpath ppath =
     (case syntax_try V tpath ppath of Inr r \<Rightarrow> r | Inl e \<Rightarrow> syntax_error_result e)"

text \<open>The \<open>ERROR\<close> result of \<open>_run_parameter_validation\<close>, with its one message.\<close>

definition param_error_result :: "string \<Rightarrow> pass_result" where
  "param_error_result msg =
     \<lparr> status = ''ERROR'', is_valid = False, details = ParamDetails [] [msg],
       error_count = 1, warning_count = 0, info_count = None \<rparr>"

text \<open>The body of the \<open>try\<close> block of \<open>_run_parameter_validation\<close>.\<close>

definition parameter_try ::
  "validators \<Rightarrow> string \<Rightarrow> string \<Rightarrow> string option \<Rightarrow> exn + pass_result" where
  "parameter_try V tpath ppath cpath =
     bind_e (call (pv_load_template V tpath)) (\<lambda>template.
       if \<not> truthy template then Inr (param_error_result template_load_failed)
       else
     bind_e (call (pv_load_parameters V ppath)) (\<lambda>parameters.
       if \<not> truthy parameters then Inr (param_error_result parameters_load_failed)
       else
     bind_e (if path_given cpath
             then call (pv_validate_json_config_schema V parameters (the cpath))
             else Inr []) (\<lambda>schema_errors.
     bind_e (call (pv_validate_config_consistency V parameters)) (\<lambda>consistency_errors.
     let config_errors = schema_errors @ consistency_errors in
     bind_e (py_get parameters ''serviceConfigs'' parameters) (\<lambda>param_values.
     bind_e (call (pv_validate_parameters V template param_values)) (\<lambda>results.
     let has_errors = (list_ex (\<lambda>r. \<not> pvr_is_valid r) results \<or> config_errors \<noteq> []) in
       Inr \<lparr> status = (if has_errors then ''FAIL'' else ''PASS''),
             is_valid = (\<not> has_errors),
             details = ParamDetails results config_errors,
             error_count = length (filter (\<lambda>r. \<not> pvr_is_valid r) results) + length config_errors,
             warning_count = sum_list (map (\<lambda>r. length (pvr_warnings r)) results),
             info_count = None \<rparr>))))))"

definition run_parameter_validation ::
  "validators \<Rightarrow> string \<Rightarrow> string option \<Rightarrow> string option \<Rightarrow> pass_result" where
  "run_parameter_validation V tpath ppath cpath =
     (if \<not> path_given ppath
      then \<lparr> status = ''SKIPPED'', is_valid = True, details = ParamDetails [] [],
             error_count = 0, warning_count = 0, info_count = None \<rparr>
      else (case parameter_try V tpath (the ppath) cpath of
              Inr r \<Rightarrow> r
            | Inl e \<Rightarrow> param_error_result (parameter_failure_prefix @ str_of_exn e)))"

definition count_prefixed :: "string \<Rightarrow> string list \<Rightarrow> nat" where
  "count_prefixed p msgs = length (filter (prefix p) msgs)"

definition wa_try :: "validators \<Rightarrow> string \<Rightarrow> exn + pass_result" where
  "wa_try V tpath =
     bind_e (call (wa_validate_cloudformation_template V tpath)) (\<lambda>(valid, messages).
       Inr \<lparr> status = (if \<not> valid then ''FAIL'' else ''PASS''),
             is_valid = valid,
             details = Messages messages,
             error_count = count_prefixed ''Error'' messages,
             warning_count = count_prefixed ''Warning'' messages,
             info_count = Some (count_prefixed check_mark messages) \<rparr>)"

definition wa_error_result :: "exn \<Rightarrow> pass_result" where
  "wa_error_result e =
     \<lparr> status = ''ERROR'', is_valid = False,
       details = Messages [wa_failure_prefix @ str_of_exn e],
       error_count = 1, warning_count = 0, info_count = Some 0 \<rparr>"

definition run_well_architected_validation :: "validators \<Rightarrow> string \<Rightarrow> pass_result" where
  "run_well_architected_validation V tpath =
     (case wa_try V tpath of Inr r \<Rightarrow> r | Inl e \<Rightarrow> wa_error_result e)"

text \<open>\<open>results.get('info_count', 0)\<close>.\<close>

definition info_or_zero :: "pass_result \<Rightarrow> nat" where
  "info_or_zero r = (case info_count r of None \<Rightarrow> 0 | Some n \<Rightarrow> n)"

definition create_validation_summary ::
  "string \<Rightarrow> string option \<Rightarrow> string \<Rightarrow> pass_result \<Rightarrow> pass_result \<Rightarrow> pass_result
     \<Rightarrow> ValidationSummary" where
  "create_validation_summary tpath ppath ts syntax_results parameter_results wa_results =
     (let all_valid = (is_valid syntax_results \<and> is_valid parameter_results \<and> is_valid wa_results);
          has_warnings = (warning_count syntax_results > 0 \<or> warning_count parameter_results > 0
                            \<or> warning_count wa_results > 0);
          status = (if all_valid then (if has_warnings then ''WARNING'' else ''PASS'') else ''FAIL'');
          total_errors = error_count syntax_results + error_count parameter_results
                           + error_count wa_results;
          total_warnings = warning_count syntax_results + warning_count parameter_results
                             + warning_count wa_results;
          total_infos = info_or_zero syntax_results + info_or_zero wa_results
      in \<lparr> template_path = tpath, parameters_path = ppath, timestamp = ts,
            overall_status = status,
            syntax_validation = syntax_results,
            parameter_validation = parameter_results,
            well_architected_validation = wa_results,
            total_issues = total_errors + total_warnings + total_infos,
            errors = total_errors, warnings = total_warnings, infos = total_infos \<rparr>)"

text \<open>\<open>run_comprehensive_validation\<close>; the clock reading is an input.\<close>

definition run_comprehensive_validation ::
  "validators \<Rightarrow> string \<Rightarrow> string \<Rightarrow> string option \<Rightarrow> string option \<Rightarrow> ValidationSummary" where
  "run_comprehensive_validation V ts tpath ppath cpath =
     (let syntax_results = run_syntax_validation V tpath ppath;
          parameter_results = run_parameter_validation V tpath ppath cpath;
          wa_results = run_well_architected_validation V tpath
      in create_validation_summary tpath ppath ts syntax_results parameter_results wa_results)"

subsection \<open>Vocabulary for the aggregation rule\<close>

text \<open>A pass failed when its status is \<open>FAIL\<close> or \<open>ERROR\<close>.\<close>

definition failed :: "pass_result \<Rightarrow> bool" where
  "failed r = (status r = ''FAIL'' \<or> status r = ''ERROR'')"

text \<open>What a pass adds to the totals when a skipped pass is counted as nothing.\<close>

definition counted_errors :: "pass_result \<Rightarrow> nat" where
  "counted_errors r = (if status r = ''SKIPPED'' then 0 else error_count r)"

definition counted_warnings :: "pass_result \<Rightarrow> nat" where
  "counted_warnings r = (if status r = ''SKIPPED'' then 0 else warning_count r)"

text \<open>The shape every result of the three runners has: the status says \<open>FAIL\<close> or
  \<open>ERROR\<close> exactly when \<open>is_valid\<close> is false, and a skipped pass has zero counts.\<close>

definition pass_ok :: "pass_result \<Rightarrow> bool" where
  "pass_ok r = ((failed r = (\<not> is_valid r)) \<and>
                (status r \<noteq> ''SKIPPED'' \<or> (error_count r = 0 \<and> warning_count r = 0)))"

text \<open>Two sets of validators agree on the collaborators that one pass calls.\<close>

definition same_syntax_validator :: "validators \<Rightarrow> validators \<Rightarrow> bool" where
  "same_syntax_validator V V' =
     (cf_validate_template V' = cf_validate_template V \<and> pv_load_parameters V' = pv_load_parameters V)"

definition same_parameter_validator :: "validators \<Rightarrow> validators \<Rightarrow> bool" where
  "same_parameter_validator V V' =
     (pv_load_template V' = pv_load_template V \<and> pv_load_parameters V' = pv_load_parameters V
      \<and> pv_validate_json_config_schema V' = pv_validate_json_config_schema V
      \<and> pv_validate_config_consistency V' = pv_validate_config_consistency V
      \<and> pv_validate_parameters V' = pv_validate_parameters V)"

definition same_compliance_validator :: "validators \<Rightarrow> validators \<Rightarrow> bool" where
  "same_compliance_validator V V' =
     (wa_validate_cloudformation_template V' = wa_validate_cloudformation_template V)"

definition known_status :: "pass_result \<Rightarrow> bool" where
  "known_status r = (status r \<in> {''PASS'', ''FAIL'', ''SKIPPED'', ''ERROR''})"

text \<open>Example inputs.\<close>

definition pass_of :: "string \<Rightarrow> bool \<Rightarrow> nat \<Rightarrow> nat \<Rightarrow> pass_result" where
  "pass_of st v ec wc =
     \<lparr> status = st, is_valid = v, details = Messages [], error_count = ec,
       warning_count = wc, info_count = None \<rparr>"

definition raising_validators :: validators where
  "raising_validators =
     \<lparr> cf_validate_template = (\<lambda>t p. Raises ''boom''),
       pv_load_template = (\<lambda>t. Raises ''boom''),
       pv_load_parameters = (\<lambda>p. Raises ''boom''),
       pv_validate_json_config_schema = (\<lambda>c s. Raises ''boom''),
       pv_validate_config_consistency = (\<lambda>c. Raises ''boom''),
       pv_validate_parameters = (\<lambda>t p. Raises ''boom''),
       wa_validate_cloudformation_template = (\<lambda>t. Raises ''boom'') \<rparr>"

text \<open>The same validators, except that the template validation of the syntax pass
  succeeds.\<close>

definition syntax_only_validators :: validators where
  "syntax_only_validators =
     raising_validators \<lparr> cf_validate_template := (\<lambda>t p. Returns (True, [])) \<rparr>"

definition syntax_only_summary :: ValidationSummary where
  "syntax_only_summary =
     run_comprehensive_validation syntax_only_validators ''t0'' ''t.yaml'' (Some ''p.json'') None"

definition all_raise_summary :: ValidationSummary where
  "all_raise_summary =
     run_comprehensive_validation raising_validators ''t0'' ''t.yaml'' (Some ''p.json'') None"

section \<open>Properties of the configuration validator\<close>

subsection \<open>The verdict\<close>

lemma for_each_invariant:
  assumes "for_each body xs s = Inr s'" and "P s"
    and "\<And>x t t'. x \<in> set xs \<Longrightarrow> P t \<Longrightarrow> body x t = Inr t' \<Longrightarrow> P t'"
  shows "P s'"
  using assms
proof (induction xs arbitrary: s)
  case Nil
  then show ?case by simp
next
  case (Cons x xs)
  from Cons.prems(1) obtain t where t: "body x s = Inr t" and rest: "for_each body xs t = Inr s'"
    by (auto split: sum.splits)
  have "P t" using Cons.prems(2,3) t by auto
  then show ?case using Cons.IH [OF rest] Cons.prems(3) by auto
qed

lemma fold_invariant:
  assumes "P s" and "\<And>x t. x \<in> set xs \<Longrightarrow> P t \<Longrightarrow> P (f x t)"
  shows "P (fold f xs s)"
  using assms by (induction xs arbitrary: s) auto

lemmas for_each_tracks = for_each_invariant [where P = "tracks base" for base]

lemmas fold_tracks = fold_invariant [where P = "tracks base" for base]

lemma tracks_start: "tracks (v_errors v) (True, v)"
  by (simp add: tracks_def)

lemma tracks_flag_error: "tracks base st \<Longrightarrow> tracks base (flag_error d st)"
  by (auto simp: tracks_def flag_error_def add_error_def prefix_def)

lemma tracks_note_warning: "tracks base st \<Longrightarrow> tracks base (note_warning d st)"
  by (auto simp: tracks_def note_warning_def add_warning_def)

lemma bind_e_Inr: "bind_e m f = Inr y \<longleftrightarrow> (\<exists>x. m = Inr x \<and> f x = Inr y)"
  by (cases m) (simp_all add: bind_e_def)

lemma check_output_tracks:
  assumes "check_output stack entry st = Inr st'" and "tracks base st"
  shows "tracks base st'"
proof -
  have f: "tracks base (fold (\<lambda>field s. if \<not> has_key field (snd entry)
              then flag_error (OutputMissingField stack (fst entry) field) s else s)
            output_required_fields st)"
    by (rule fold_tracks) (use assms(2) in \<open>auto intro: tracks_flag_error\<close>)
  show ?thesis
    using assms f
    by (auto simp: check_output_def Let_def bind_e_Inr
        intro: tracks_flag_error tracks_note_warning split: if_splits)
qed

lemma validate_stack_outputs_tracks:
  assumes "validate_stack_outputs so v = Inr st"
  shows "tracks (v_errors v) st"
proof -
  from assms obtain items where run: "for_each check_stack_outputs items (True, v) = Inr st"
    by (auto simp: validate_stack_outputs_def bind_e_Inr)
  show ?thesis
  proof (rule for_each_tracks [OF run tracks_start])
    fix x t t'
    assume "tracks (v_errors v) t" and "check_stack_outputs x t = Inr t'"
    then show "tracks (v_errors v) t'"
      by (auto simp: check_stack_outputs_def split: json.splits
          intro: tracks_flag_error elim!: for_each_tracks check_output_tracks)
  qed
qed

lemma check_dependency_tracks:
  assumes "tracks base st"
  shows "tracks base (check_dependency stack entry st)"
proof -
  have f: "tracks base (fold (\<lambda>field s. if \<not> has_key field (snd entry)
              then flag_error (DependencyMissingField stack (fst entry) field) s else s)
            dependency_required_fields st)"
    by (rule fold_tracks) (use assms in \<open>auto intro: tracks_flag_error\<close>)
  show ?thesis
    using assms f
    by (auto simp: check_dependency_def Let_def intro!: tracks_flag_error)
qed

lemma validate_dependencies_tracks:
  assumes "validate_dependencies ds v = Inr st"
  shows "tracks (v_errors v) st"
proof -
  from assms obtain items where st: "st = fold check_stack_dependencies items (True, v)"
    by (auto simp: validate_dependencies_def bind_e_Inr)
  show ?thesis
    unfolding st
  proof (rule fold_tracks [OF tracks_start])
    fix x t
    assume "tracks (v_errors v) t"
    then show "tracks (v_errors v) (check_stack_dependencies x t)"
      by (auto simp: check_stack_dependencies_def split: json.splits
          intro!: tracks_flag_error fold_tracks check_dependency_tracks)
  qed
qed

lemma check_required_tracks:
  assumes "check_required stack target defined r st = Inr st'" and "tracks base st"
  shows "tracks base st'"
  using assms by (auto simp: check_required_def bind_e_Inr tracks_flag_error split: if_splits)

lemma check_optional_tracks:
  assumes "check_optional stack target defined r st = Inr st'" and "tracks base st"
  shows "tracks base st'"
  using assms by (auto simp: check_optional_def bind_e_Inr tracks_note_warning split: if_splits)

lemma check_consistency_tracks:
  assumes "check_consistency so stack dep st = Inr st'" and "tracks base st"
  shows "tracks base st'"
proof -
  have req: "\<And>target defined xs t t'. for_each (check_required stack target defined) xs t = Inr t'
      \<Longrightarrow> tracks base t \<Longrightarrow> tracks base t'"
    by (erule for_each_tracks) (auto elim: check_required_tracks)
  have opt: "\<And>target defined xs t t'. for_each (check_optional stack target defined) xs t = Inr t'
      \<Longrightarrow> tracks base t \<Longrightarrow> tracks base t'"
    by (erule for_each_tracks) (auto elim: check_optional_tracks)
  show ?thesis
    using assms
    by (auto simp: check_consistency_def bind_e_Inr tracks_note_warning
        split: if_splits dest!: req opt)
qed

lemma validate_consistency_tracks:
  assumes "validate_output_dependency_consistency config v = Inr st"
  shows "tracks (v_errors v) st"
proof -
  from assms obtain so items where
    run: "for_each (check_stack_consistency so) items (True, v) = Inr st"
    by (auto simp: validate_output_dependency_consistency_def bind_e_Inr)
  show ?thesis
  proof (rule for_each_tracks [OF run tracks_start])
    fix x t t'
    assume "tracks (v_errors v) t" and "check_stack_consistency so x t = Inr t'"
    then show "tracks (v_errors v) t'"
      by (auto simp: check_stack_consistency_def bind_e_Inr
          elim!: for_each_tracks check_consistency_tracks)
  qed
qed

lemma check_export_tracks:
  assumes "check_export stack output sc = Inr sc'" and "tracks base (fst sc)"
  shows "tracks base (fst sc')"
  using assms
  by (auto simp: check_export_def bind_e_Inr tracks_flag_error
      split: if_splits option.splits)

lemma validate_uniqueness_tracks:
  assumes "validate_export_name_uniqueness so v = Inr st"
  shows "tracks (v_errors v) st"
proof -
  from assms obtain items sc where
    run: "for_each check_stack_exports items ((True, v), Map.empty) = Inr sc" and st: "st = fst sc"
    by (auto simp: validate_export_name_uniqueness_def bind_e_Inr)
  have "tracks (v_errors v) (fst sc)"
  proof (rule for_each_invariant [OF run, where P = "\<lambda>sc. tracks (v_errors v) (fst sc)"])
    show "tracks (v_errors v) (fst ((True, v), Map.empty))"
      by (simp add: tracks_start)
  next
    fix x t t'
    assume "tracks (v_errors v) (fst t)" and "check_stack_exports x t = Inr t'"
    then show "tracks (v_errors v) (fst t')"
      by (auto simp: check_stack_exports_def bind_e_Inr
          elim!: for_each_invariant [where P = "\<lambda>sc. tracks (v_errors v) (fst sc)"]
          check_export_tracks)
  qed
  then show ?thesis by (simp add: st)
qed

lemma report_cycles_grow:
  assumes "for_each report_cycle cycles v = Inr v'"
  shows "\<exists>es. v_errors v' = v_errors v @ es \<and> length es = length cycles"
  using assms
proof (induction cycles arbitrary: v)
  case Nil
  then show ?case by simp
next
  case (Cons c cycles)
  from Cons.prems obtain v1 where
    first: "report_cycle c v = Inr v1" and rest0: "for_each report_cycle cycles v1 = Inr v'"
    by (auto split: sum.splits)
  from first obtain names where "v1 = add_error (CircularDependency names) v"
    by (auto simp: report_cycle_def bind_e_Inr)
  with rest0 have
    rest: "for_each report_cycle cycles (add_error (CircularDependency names) v) = Inr v'"
    by simp
  from Cons.IH [OF rest] show ?case
    by (auto simp: add_error_def)
qed

lemma validate_structure_tracks:
  assumes "validate_structure config v = Inr st"
  shows "tracks (v_errors v) st \<and> (fst st \<longrightarrow> snd st = v)"
  using assms
  by (auto simp: validate_structure_def bind_e_Inr tracks_def add_error_def split: if_splits)

lemma tracks_chain:
  assumes "tracks a (f1, v1)" and "tracks (v_errors v1) (f2, v2)"
  shows "tracks a (f1 \<and> f2, v2)"
  using assms by (auto simp: tracks_def prefix_def)

text \<open>
  Claim C5.  When \<open>validate_all\<close> returns, its verdict is true exactly when the run added
  no entry to the list of errors; the list of warnings plays no part.
\<close>

theorem verdict_iff_no_error:
  assumes "validate_all order config v = Inr (ok, v')"
  shows "(ok \<longleftrightarrow> v_errors v' = v_errors v) \<and> prefix (v_errors v) (v_errors v')"
proof -
  from assms obtain st0 where s0: "validate_structure config v = Inr st0"
    by (auto simp: validate_all_def bind_e_Inr)
  note t0 = validate_structure_tracks [OF s0]
  show ?thesis
  proof (cases "fst st0")
    case False
    with assms s0 t0 show ?thesis
      by (auto simp: validate_all_def bind_e_def tracks_def)
  next
    case True
    with t0 have v0: "snd st0 = v" by simp
    from assms s0 True v0 obtain so st1 ds st2 st3 st4 cycles where
      r1: "validate_stack_outputs so v = Inr st1" and
      r2: "validate_dependencies ds (snd st1) = Inr st2" and
      r3: "validate_output_dependency_consistency config (snd st2) = Inr st3" and
      r4: "validate_export_name_uniqueness so (snd st3) = Inr st4" and
      fin: "(if cycles \<noteq> []
             then bind_e (for_each report_cycle cycles (snd st4)) (\<lambda>v5. Inr (False, v5))
             else Inr (fst st1 \<and> fst st2 \<and> fst st3 \<and> fst st4, snd st4)) = Inr (ok, v')"
      by (auto simp: validate_all_def bind_e_Inr)
    have c1: "tracks (v_errors v) (fst st1, snd st1)"
      using validate_stack_outputs_tracks [OF r1] by simp
    have c2: "tracks (v_errors v) (fst st1 \<and> fst st2, snd st2)"
      using tracks_chain [OF c1] validate_dependencies_tracks [OF r2] by simp
    have c3: "tracks (v_errors v) ((fst st1 \<and> fst st2) \<and> fst st3, snd st3)"
      using tracks_chain [OF c2] validate_consistency_tracks [OF r3] by simp
    have c4: "tracks (v_errors v) (((fst st1 \<and> fst st2) \<and> fst st3) \<and> fst st4, snd st4)"
      using tracks_chain [OF c3] validate_uniqueness_tracks [OF r4] by simp
    show ?thesis
    proof (cases "cycles = []")
      case True
      with fin c4 show ?thesis by (auto simp: tracks_def)
    next
      case False
      with fin obtain v5 where run: "for_each report_cycle cycles (snd st4) = Inr v5"
        and res: "ok = False" "v' = v5"
        by (auto simp: bind_e_Inr)
      from report_cycles_grow [OF run] False c4 res show ?thesis
        by (auto simp: tracks_def prefix_def)
    qed
  qed
qed

theorem verdict_iff_no_error_witness:
  "validate_all [HStr ''A'', HStr ''B''] optional_missing_config new_validator
     = Inr (True, \<lparr> v_errors = [],
                    v_warnings = [OptionalOutputMissing ''A'' (JStr ''X'') (JStr ''B'')] \<rparr>)
   \<and> v_errors \<lparr> v_errors = [],
                 v_warnings = [OptionalOutputMissing ''A'' (JStr ''X'') (JStr ''B'')] \<rparr>
       = v_errors new_validator"
proof -
  have run: "validate_all [HStr ''A'', HStr ''B''] optional_missing_config new_validator
     = Inr (True, \<lparr> v_errors = [],
                    v_warnings = [OptionalOutputMissing ''A'' (JStr ''X'') (JStr ''B'')] \<rparr>)"
    by code_simp
  from verdict_iff_no_error [OF run] run show ?thesis by simp
qed

subsection \<open>Paths that avoid a set of nodes\<close>

lemma avoiding_mono: "V \<subseteq> W \<Longrightarrow> avoiding r W \<subseteq> avoiding r V"
  by (auto simp: avoiding_def)

lemma avoiding_empty: "avoiding r {} = r"
  by (auto simp: avoiding_def)

lemma avoiding_split:
  assumes "(x, t) \<in> (avoiding r V)\<^sup>*"
  shows "(x, t) \<in> (avoiding r (insert u V))\<^sup>*
         \<or> (\<exists>w. (u, w) \<in> avoiding r V \<and> (w, t) \<in> (avoiding r (insert u V))\<^sup>*)"
  using assms
proof (induction rule: converse_rtrancl_induct)
  case base
  then show ?case by simp
next
  case (step x y)
  show ?case
  proof (cases "x = u")
    case True
    from step.IH show ?thesis
    proof
      assume "(y, t) \<in> (avoiding r (insert u V))\<^sup>*"
      with step.hyps(1) True show ?thesis by blast
    qed blast
  next
    case False
    with step.hyps(1) have "(x, y) \<in> avoiding r (insert u V)"
      by (simp add: avoiding_def)
    with step.IH show ?thesis
      by (meson converse_rtrancl_into_rtrancl)
  qed
qed

lemma avoiding_first_step:
  assumes "u \<noteq> t" and "u \<notin> V"
  shows "(u, t) \<in> (avoiding r V)\<^sup>* \<longleftrightarrow>
         (\<exists>w. (u, w) \<in> r \<and> (w, t) \<in> (avoiding r (insert u V))\<^sup>*)"
proof
  assume "(u, t) \<in> (avoiding r V)\<^sup>*"
  from avoiding_split [OF this, of u]
  show "\<exists>w. (u, w) \<in> r \<and> (w, t) \<in> (avoiding r (insert u V))\<^sup>*"
  proof
    assume "(u, t) \<in> (avoiding r (insert u V))\<^sup>*"
    then have False
      using assms(1) by (cases rule: converse_rtranclE) (auto simp: avoiding_def)
    then show ?thesis ..
  next
    assume "\<exists>w. (u, w) \<in> avoiding r V \<and> (w, t) \<in> (avoiding r (insert u V))\<^sup>*"
    then show ?thesis by (auto simp: avoiding_def)
  qed
next
  assume "\<exists>w. (u, w) \<in> r \<and> (w, t) \<in> (avoiding r (insert u V))\<^sup>*"
  then obtain w where e: "(u, w) \<in> r" and p: "(w, t) \<in> (avoiding r (insert u V))\<^sup>*"
    by blast
  have "(u, w) \<in> avoiding r V"
    using e assms(2) by (simp add: avoiding_def)
  moreover have "(w, t) \<in> (avoiding r V)\<^sup>*"
    using p rtrancl_mono [OF avoiding_mono [of V "insert u V" r]] by auto
  ultimately show "(u, t) \<in> (avoiding r V)\<^sup>*"
    by (rule converse_rtrancl_into_rtrancl)
qed

lemma avoiding_blocked:
  assumes "u \<in> V" and "u \<noteq> t"
  shows "(u, t) \<notin> (avoiding r V)\<^sup>*"
proof
  assume "(u, t) \<in> (avoiding r V)\<^sup>*"
  then show False
    using assms by (cases rule: converse_rtranclE) (auto simp: avoiding_def)
qed

lemma cycle_first_step:
  "(s, s) \<in> (r - Id)\<^sup>+ \<longleftrightarrow>
   (\<exists>w. (s, w) \<in> r \<and> w \<noteq> s \<and> (w, s) \<in> (avoiding r {s})\<^sup>*)"
proof
  assume "(s, s) \<in> (r - Id)\<^sup>+"
  then obtain y where y: "(s, y) \<in> r - Id" and p: "(y, s) \<in> (r - Id)\<^sup>*"
    by (meson tranclD)
  from p have "(y, s) \<in> (avoiding (r - Id) {})\<^sup>*"
    by (simp add: avoiding_empty)
  from avoiding_split [OF this, of s]
  obtain w where "(s, w) \<in> r - Id" and "(w, s) \<in> (avoiding (r - Id) {s})\<^sup>*"
    using y by (auto simp: avoiding_def)
  moreover have "avoiding (r - Id) {s} \<subseteq> avoiding r {s}"
    by (auto simp: avoiding_def)
  ultimately show "\<exists>w. (s, w) \<in> r \<and> w \<noteq> s \<and> (w, s) \<in> (avoiding r {s})\<^sup>*"
    using rtrancl_mono by blast
next
  assume "\<exists>w. (s, w) \<in> r \<and> w \<noteq> s \<and> (w, s) \<in> (avoiding r {s})\<^sup>*"
  then obtain w where e: "(s, w) \<in> r - Id" and p: "(w, s) \<in> (avoiding r {s})\<^sup>*"
    by auto
  have "avoiding r {s} \<subseteq> r"
    by (auto simp: avoiding_def)
  then have "(w, s) \<in> r\<^sup>*"
    using p rtrancl_mono by blast
  then have "(w, s) \<in> (r - Id)\<^sup>*"
    by (simp add: rtrancl_r_diff_Id)
  with e show "(s, s) \<in> (r - Id)\<^sup>+"
    by (rule rtrancl_into_trancl2)
qed

subsection \<open>The search \<open>has_path\<close>\<close>

declare has_path.simps [simp del]

lemma py_eq_JStr [simp]: "py_eq (JStr a) (JStr b) \<longleftrightarrow> a = b"
  by simp

lemma dep_ok_target:
  assumes "dep_ok dep"
  obtains t where "py_get dep ''stack_name'' JNull = Inr (JStr t)" and "field_of dep ''stack_name'' = JStr t"
proof -
  from assms obtain kvs where d: "dep = JObj kvs"
    by (cases dep) (auto simp: dep_ok_def)
  from assms d obtain t where "field_of dep ''stack_name'' = JStr t"
    by (cases "field_of dep ''stack_name''") (auto simp: dep_ok_def)
  with d that show ?thesis
    by (auto split: option.splits)
qed

lemma dependencies_ok_lookup:
  assumes "dependencies_ok D" and "map_of D s = Some v"
  obtains ds where "v = JList ds" and "list_all dep_ok ds"
proof -
  from assms(2) have "(s, v) \<in> set D" by (rule map_of_SomeD)
  with assms(1) have "deps_ok v"
    by (auto simp: dependencies_ok_def list_all_iff)
  with that show ?thesis by (cases v) auto
qed

lemma has_path_correct:
  "dependencies_ok D \<Longrightarrow> start = JStr u \<Longrightarrow> goal = JStr t \<Longrightarrow> path \<noteq> [] \<Longrightarrow>
   (length path = 1 \<longrightarrow> HStr t \<in> visited) \<Longrightarrow> list_all is_str path \<Longrightarrow>
   \<exists>b found'. has_path D start goal visited path found = Inr (b, found')
     \<and> (b \<longleftrightarrow> (u, t) \<in> (avoiding (edges D) (visited_names visited))\<^sup>* \<and> (length path > 1 \<or> u \<noteq> t))
     \<and> reports found path goal b found'"
  and has_path_deps_correct:
  "dependencies_ok D \<Longrightarrow> list_all dep_ok deps \<Longrightarrow> goal = JStr t \<Longrightarrow> path \<noteq> [] \<Longrightarrow>
   (length path = 1 \<longrightarrow> HStr t \<in> visited) \<Longrightarrow> list_all is_str path \<Longrightarrow>
   \<exists>b found'. has_path_deps D deps goal visited path found = Inr (b, found')
     \<and> (b \<longleftrightarrow> (\<exists>w \<in> set (target_names deps).
               (w, t) \<in> (avoiding (edges D) (visited_names visited))\<^sup>* \<and> (length path > 1 \<or> w \<noteq> t)))
     \<and> reports found path goal b found'"
proof (induction D start goal visited path found and D deps goal visited path found
    arbitrary: u t and t rule: has_path_has_path_deps.induct)
  case (1 D start goal visited path found)
  note ok = "1.prems"(1) and start = "1.prems"(2) and goal = "1.prems"(3)
    and path = "1.prems"(4) and len1 = "1.prems"(5) and strs = "1.prems"(6)
  let ?E = "avoiding (edges D) (visited_names visited)"
  show ?case
  proof (cases "u = t \<and> length path > 1")
    case True
    then show ?thesis
      using start goal strs
      by (auto simp: has_path.simps reports_def)
  next
    case False
    note nohit = this
    show ?thesis
    proof (cases "HStr u \<in> visited")
      case True
      have res: "has_path D start goal visited path found = Inr (False, found)"
        using nohit True start goal by (simp add: has_path.simps)
      have "(u, t) \<notin> ?E\<^sup>*" if "u \<noteq> t"
        using that True by (intro avoiding_blocked) (simp add: visited_names_def)
      then show ?thesis
        using res nohit by (auto simp: reports_def)
    next
      case False
      note fresh = this
      have ut: "u \<noteq> t"
        using nohit path len1 fresh by (cases "length path = 1") (auto simp: Suc_lessI)
      have uV: "u \<notin> visited_names visited"
        using fresh by (simp add: visited_names_def)
      have vn: "visited_names (insert (HStr u) visited) = insert u (visited_names visited)"
        by (auto simp: visited_names_def)
      show ?thesis
      proof (cases "map_of D u")
        case None
        have res: "has_path D start goal visited path found = Inr (False, found)"
          using ut fresh None start goal by (simp add: has_path.simps)
        have "\<not> (\<exists>w. (u, w) \<in> edges D \<and> (w, t) \<in> (avoiding (edges D) (insert u (visited_names visited)))\<^sup>*)"
          using None by (simp add: edges_def)
        then have "(u, t) \<notin> ?E\<^sup>*"
          using avoiding_first_step [OF ut uV] by blast
        then show ?thesis using res by (auto simp: reports_def)
      next
        case (Some v)
        from dependencies_ok_lookup [OF ok Some] obtain ds where
          v: "v = JList ds" and dsok: "list_all dep_ok ds" by blast
        have unfold: "has_path D start goal visited path found
             = has_path_deps D ds goal (insert (HStr u) visited) (path @ [start]) found"
          using ut fresh Some v start goal by (simp add: has_path.simps)
        have "\<exists>b found'. has_path_deps D ds goal (insert (HStr u) visited) (path @ [start]) found = Inr (b, found')
           \<and> (b \<longleftrightarrow> (\<exists>w \<in> set (target_names ds).
               (w, t) \<in> (avoiding (edges D) (visited_names (insert (HStr u) visited)))\<^sup>*
                \<and> (length (path @ [start]) > 1 \<or> w \<noteq> t)))
           \<and> reports found (path @ [start]) goal b found'"
          using ut fresh Some v start goal ok dsok path strs
          by (intro "1.IH") auto
        then obtain b found' where
          r: "has_path_deps D ds goal (insert (HStr u) visited) (path @ [start]) found = Inr (b, found')"
          and b: "b \<longleftrightarrow> (\<exists>w \<in> set (target_names ds).
               (w, t) \<in> (avoiding (edges D) (insert u (visited_names visited)))\<^sup>*)"
          and rep: "reports found (path @ [start]) goal b found'"
          using path vn by (cases path) auto
        have "(\<exists>w \<in> set (target_names ds). (w, t) \<in> (avoiding (edges D) (insert u (visited_names visited)))\<^sup>*)
              \<longleftrightarrow> (\<exists>w. (u, w) \<in> edges D \<and> (w, t) \<in> (avoiding (edges D) (insert u (visited_names visited)))\<^sup>*)"
          using Some v by (auto simp: edges_def)
        with b have "b \<longleftrightarrow> (u, t) \<in> ?E\<^sup>*"
          using avoiding_first_step [OF ut uV] by simp
        moreover have "reports found path goal b found'"
          using rep by (auto simp: reports_def prefix_def)
        ultimately show ?thesis
          using unfold r ut by auto
      qed
    qed
  qed
next
  case (2 D goal visited path found)
  then show ?case by (auto simp: reports_def)
next
  case (3 D dep deps goal visited path found)
  note ok = "3.prems"(1) and dsok = "3.prems"(2) and goal = "3.prems"(3)
    and path = "3.prems"(4) and len1 = "3.prems"(5) and strs = "3.prems"(6)
  let ?E = "avoiding (edges D) (visited_names visited)"
  from dsok have dok: "dep_ok dep" and restok: "list_all dep_ok deps" by simp_all
  from dep_ok_target [OF dok] obtain w where
    get: "py_get dep ''stack_name'' JNull = Inr (JStr w)" and fld: "field_of dep ''stack_name'' = JStr w"
    by blast
  show ?case
  proof (cases "w = []")
    case True
    have "\<exists>b found'. has_path_deps D deps goal visited path found = Inr (b, found')
       \<and> (b \<longleftrightarrow> (\<exists>w \<in> set (target_names deps). (w, t) \<in> ?E\<^sup>* \<and> (length path > 1 \<or> w \<noteq> t)))
       \<and> reports found path goal b found'"
      using get True ok restok goal path len1 strs by (intro "3.IH"(3)) auto
    then show ?thesis using get fld True by simp
  next
    case False
    have "\<exists>b found'. has_path D (JStr w) goal visited path found = Inr (b, found')
       \<and> (b \<longleftrightarrow> (w, t) \<in> ?E\<^sup>* \<and> (length path > 1 \<or> w \<noteq> t))
       \<and> reports found path goal b found'"
      using get False ok goal path len1 strs by (intro "3.IH"(1)) auto
    then obtain b1 f1 where
      r1: "has_path D (JStr w) goal visited path found = Inr (b1, f1)"
      and b1: "b1 \<longleftrightarrow> (w, t) \<in> ?E\<^sup>* \<and> (length path > 1 \<or> w \<noteq> t)"
      and rep1: "reports found path goal b1 f1"
      by blast
    show ?thesis
    proof (cases b1)
      case True
      then show ?thesis using get fld False r1 b1 rep1 by auto
    next
      case nb: False
      then have f1: "f1 = found" using rep1 by (simp add: reports_def)
      have "\<exists>b found'. has_path_deps D deps goal visited path (snd (b1, f1)) = Inr (b, found')
         \<and> (b \<longleftrightarrow> (\<exists>w \<in> set (target_names deps). (w, t) \<in> ?E\<^sup>* \<and> (length path > 1 \<or> w \<noteq> t)))
         \<and> reports (snd (b1, f1)) path goal b found'"
        using get False r1 nb ok restok goal path len1 strs by (intro "3.IH"(2)) auto
      then show ?thesis using get fld False r1 nb b1 f1 by auto
    qed
  qed
qed

subsection \<open>Cycle detection\<close>

lemma on_cycle_key:
  assumes "on_cycle D s"
  shows "s \<in> set (map fst D)"
proof -
  from assms obtain w where "(s, w) \<in> edges D"
    unfolding on_cycle_def by (meson DiffD1 tranclD)
  then have "map_of D s \<noteq> None"
    by (auto simp: edges_def)
  then show ?thesis
    by (simp add: map_of_eq_None_iff)
qed

lemma top_search:
  assumes ok: "dependencies_ok D" and key: "s \<in> set (map fst D)"
  shows "\<exists>b found'. has_path D (JStr s) (JStr s) {} [] found = Inr (b, found')
           \<and> (b \<longleftrightarrow> on_cycle D s) \<and> reports found [JStr s] (JStr s) b found'"
proof -
  from key obtain v where v: "map_of D s = Some v"
    by (metis map_of_eq_None_iff not_None_eq set_map)
  from dependencies_ok_lookup [OF ok v] obtain ds where
    ds: "v = JList ds" and dsok: "list_all dep_ok ds" by blast
  have unfold: "has_path D (JStr s) (JStr s) {} [] found
                  = has_path_deps D ds (JStr s) {HStr s} [JStr s] found"
    using v ds by (simp add: has_path.simps)
  have vn: "visited_names {HStr s} = {s}"
    by (auto simp: visited_names_def)
  from has_path_deps_correct [OF ok dsok, of "JStr s" s "[JStr s]" "{HStr s}" found]
  obtain b found' where
    r: "has_path_deps D ds (JStr s) {HStr s} [JStr s] found = Inr (b, found')"
    and b: "b \<longleftrightarrow> (\<exists>w \<in> set (target_names ds). (w, s) \<in> (avoiding (edges D) {s})\<^sup>* \<and> w \<noteq> s)"
    and rep: "reports found [JStr s] (JStr s) b found'"
    by (auto simp: vn)
  have "(\<exists>w \<in> set (target_names ds). (w, s) \<in> (avoiding (edges D) {s})\<^sup>* \<and> w \<noteq> s)
        \<longleftrightarrow> (\<exists>w. (s, w) \<in> edges D \<and> w \<noteq> s \<and> (w, s) \<in> (avoiding (edges D) {s})\<^sup>*)"
    using v ds by (auto simp: edges_def)
  with b have "b \<longleftrightarrow> on_cycle D s"
    unfolding on_cycle_def cycle_first_step by simp
  with unfold r rep show ?thesis by auto
qed

lemma reports_finding:
  assumes "reports found [JStr s] (JStr s) True found'"
  obtains c where "found' = found @ [c]" and "finding_of s c"
  using assms by (auto simp: reports_def finding_of_def prefix_def)

lemma probe_result:
  assumes ok: "dependencies_ok D"
  shows "\<exists>cs. probe D k found = Inr (found @ cs)
           \<and> map hd cs = map JStr (filter (on_cycle D) (key_names [k]))
           \<and> (\<forall>c \<in> set cs. \<exists>s. on_cycle D s \<and> finding_of s c)"
proof (cases k)
  case (HStr s)
  show ?thesis
  proof (cases "s \<in> set (map fst D)")
    case True
    from top_search [OF ok True, of found] obtain b found' where
      r: "has_path D (JStr s) (JStr s) {} [] found = Inr (b, found')"
      and b: "b \<longleftrightarrow> on_cycle D s" and rep: "reports found [JStr s] (JStr s) b found'"
      by blast
    show ?thesis
    proof (cases b)
      case True
      with rep obtain c where "found' = found @ [c]" and "finding_of s c"
        by (auto elim: reports_finding)
      with r b True HStr \<open>s \<in> set (map fst D)\<close> show ?thesis
        by (auto simp: probe_def finding_of_def)
    next
      case False
      with rep have "found' = found" by (simp add: reports_def)
      with r b False HStr \<open>s \<in> set (map fst D)\<close> show ?thesis
        by (auto simp: probe_def)
    qed
  next
    case False
    then have "\<not> on_cycle D s" using on_cycle_key by blast
    with False HStr show ?thesis by (auto simp: probe_def)
  qed
qed (auto simp: probe_def)

lemma key_names_append: "key_names (xs @ ys) = key_names xs @ key_names ys"
  by (induction xs rule: key_names.induct) auto

lemma probes_result:
  assumes ok: "dependencies_ok D"
  shows "\<exists>cs. for_each (probe D) order found = Inr (found @ cs)
           \<and> map hd cs = map JStr (filter (on_cycle D) (key_names order))
           \<and> (\<forall>c \<in> set cs. \<exists>s. on_cycle D s \<and> finding_of s c)"
proof (induction order arbitrary: found)
  case Nil
  then show ?case by simp
next
  case (Cons k order)
  from probe_result [OF ok, of k found] obtain cs1 where
    p: "probe D k found = Inr (found @ cs1)"
    and h1: "map hd cs1 = map JStr (filter (on_cycle D) (key_names [k]))"
    and f1: "\<forall>c \<in> set cs1. \<exists>s. on_cycle D s \<and> finding_of s c"
    by blast
  from Cons.IH [of "found @ cs1"] obtain cs2 where
    r: "for_each (probe D) order (found @ cs1) = Inr ((found @ cs1) @ cs2)"
    and h2: "map hd cs2 = map JStr (filter (on_cycle D) (key_names order))"
    and f2: "\<forall>c \<in> set cs2. \<exists>s. on_cycle D s \<and> finding_of s c"
    by blast
  have "key_names (k # order) = key_names [k] @ key_names order"
    using key_names_append [of "[k]" order] by simp
  with p r h1 h2 f1 f2 show ?case
    by (intro exI [of _ "cs1 @ cs2"]) auto
qed

lemma add_target_ok:
  assumes "dep_ok dep"
  shows "\<exists>S'. add_target dep S = Inr S' \<and> S \<subseteq> S'"
proof -
  from dep_ok_target [OF assms] obtain t where "py_get dep ''stack_name'' JNull = Inr (JStr t)"
    by blast
  then show ?thesis by (auto simp: add_target_def bind_e_def)
qed

lemma add_targets_list_ok:
  assumes "list_all dep_ok ds"
  shows "\<exists>S'. for_each add_target ds S = Inr S' \<and> S \<subseteq> S'"
  using assms
proof (induction ds arbitrary: S)
  case Nil
  then show ?case by simp
next
  case (Cons d ds)
  from Cons.prems add_target_ok [of d S] obtain S1 where
    s1: "add_target d S = Inr S1" "S \<subseteq> S1" by auto
  from Cons.IH [of S1] Cons.prems obtain S2 where
    "for_each add_target ds S1 = Inr S2" "S1 \<subseteq> S2" by auto
  with s1 show ?case by auto
qed

lemma all_stacks_loop_ok:
  assumes "list_all deps_ok vs"
  shows "\<exists>S'. for_each add_targets vs S = Inr S' \<and> S \<subseteq> S'"
  using assms
proof (induction vs arbitrary: S)
  case Nil
  then show ?case by simp
next
  case (Cons v vs)
  from Cons.prems obtain ds where v: "v = JList ds" and dsok: "list_all dep_ok ds"
    by (cases v) auto
  from add_targets_list_ok [OF dsok, of S] obtain S1 where
    s1: "add_targets v S = Inr S1" "S \<subseteq> S1"
    by (auto simp: add_targets_def v bind_e_def)
  from Cons.IH [of S1] Cons.prems obtain S2 where
    "for_each add_targets vs S1 = Inr S2" "S1 \<subseteq> S2" by auto
  with s1 show ?case by auto
qed

lemma all_stacks_ok:
  assumes "dependencies_ok D"
  shows "\<exists>S. all_stacks D = Inr S \<and> HStr ` set (map fst D) \<subseteq> S"
proof -
  have "list_all deps_ok (map snd D)"
    using assms by (simp add: dependencies_ok_def list_all_iff)
  from all_stacks_loop_ok [OF this] show ?thesis
    by (simp add: all_stacks_def)
qed

lemma key_names_set: "set (key_names ks) = {s. HStr s \<in> set ks}"
  by (induction ks rule: key_names.induct) auto

lemma key_names_distinct: "distinct ks \<Longrightarrow> distinct (key_names ks)"
  by (induction ks rule: key_names.induct) (auto simp: key_names_set)

lemma detect_result:
  assumes ok: "dependencies_ok D" and enum: "enumerates order (JObj D)"
  shows "\<exists>cycles. detect_circular_dependencies order (JObj D) = Inr cycles
           \<and> map hd cycles = map JStr (filter (on_cycle D) (key_names order))
           \<and> (\<forall>c \<in> set cycles. \<exists>s. on_cycle D s \<and> finding_of s c)
           \<and> distinct (key_names order)
           \<and> set (map fst D) \<subseteq> set (key_names order)"
proof -
  from all_stacks_ok [OF ok] obtain S where S: "all_stacks D = Inr S" "HStr ` set (map fst D) \<subseteq> S"
    by blast
  with enum have o: "distinct order" "set order = S"
    by (simp_all add: enumerates_def)
  from probes_result [OF ok, of order "[]"] obtain cs where
    "for_each (probe D) order [] = Inr cs"
    "map hd cs = map JStr (filter (on_cycle D) (key_names order))"
    "\<forall>c \<in> set cs. \<exists>s. on_cycle D s \<and> finding_of s c"
    by auto
  moreover have "set (map fst D) \<subseteq> set (key_names order)"
    using S(2) o(2) by (auto simp: key_names_set)
  ultimately show ?thesis
    using S(1) o(1) by (auto simp: detect_circular_dependencies_def bind_e_def key_names_distinct)
qed

text \<open>
  Claim C1, as amended.  For dependencies that are in order, cycle detection returns,
  and it reports a cycle that starts at a stack exactly when the dependency graph
  without its self-edges (and without edges to an empty target name) has a path from that
  stack back to it.
\<close>

theorem cycle_reported_iff:
  assumes "dependencies_ok D" and "enumerates order (JObj D)"
  shows "\<exists>cycles. detect_circular_dependencies order (JObj D) = Inr cycles
           \<and> (\<forall>s. (\<exists>c \<in> set cycles. hd c = JStr s) \<longleftrightarrow> on_cycle D s)"
proof -
  from detect_result [OF assms] obtain cycles where
    r: "detect_circular_dependencies order (JObj D) = Inr cycles"
    and h: "map hd cycles = map JStr (filter (on_cycle D) (key_names order))"
    and k: "set (map fst D) \<subseteq> set (key_names order)"
    by blast
  have "(\<exists>c \<in> set cycles. hd c = JStr s) \<longleftrightarrow> on_cycle D s" for s
  proof -
    have "(\<exists>c \<in> set cycles. hd c = JStr s) \<longleftrightarrow> JStr s \<in> set (map hd cycles)"
      by (auto simp: image_iff) metis
    also have "\<dots> \<longleftrightarrow> s \<in> set (key_names order) \<and> on_cycle D s"
      unfolding h by auto
    also have "\<dots> \<longleftrightarrow> on_cycle D s"
      using k on_cycle_key [of D s] by auto
    finally show ?thesis .
  qed
  with r show ?thesis by blast
qed

text \<open>
  Claim C2, as amended.  Cycle detection reports one finding for each stack that lies on
  a cycle: no two findings start at the same stack, every finding starts and ends at a
  stack that lies on a cycle, and there are as many findings as there are such stacks.
\<close>

theorem one_finding_per_start:
  assumes "dependencies_ok D" and "enumerates order (JObj D)"
  shows "\<exists>cycles. detect_circular_dependencies order (JObj D) = Inr cycles
           \<and> distinct (map hd cycles)
           \<and> (\<forall>c \<in> set cycles. \<exists>s. on_cycle D s \<and> finding_of s c)
           \<and> length cycles = card {s. on_cycle D s}"
proof -
  from detect_result [OF assms] obtain cycles where
    r: "detect_circular_dependencies order (JObj D) = Inr cycles"
    and h: "map hd cycles = map JStr (filter (on_cycle D) (key_names order))"
    and f: "\<forall>c \<in> set cycles. \<exists>s. on_cycle D s \<and> finding_of s c"
    and d: "distinct (key_names order)"
    and k: "set (map fst D) \<subseteq> set (key_names order)"
    by blast
  have d2: "distinct (filter (on_cycle D) (key_names order))"
    using d by simp
  then have dh: "distinct (map hd cycles)"
    unfolding h by (simp add: distinct_map inj_on_def)
  have "set (filter (on_cycle D) (key_names order)) = {s. on_cycle D s}"
    using k on_cycle_key [of D] by auto
  then have "card {s. on_cycle D s} = length (filter (on_cycle D) (key_names order))"
    using d2 distinct_card by metis
  also have "\<dots> = length (map hd cycles)"
    unfolding h by simp
  finally have "length cycles = card {s. on_cycle D s}" by simp
  with r dh f show ?thesis by blast
qed

text \<open>The chain A \<rightarrow> B \<rightarrow> C has no return edge, and nothing is reported.\<close>

lemma chain_no_cycles: "detect_circular_dependencies abc_order (JObj chain_deps) = Inr []"
  by code_simp

theorem cycle_reported_iff_witness:
  "dependencies_ok chain_deps \<and> enumerates abc_order (JObj chain_deps)
   \<and> detect_circular_dependencies abc_order (JObj chain_deps) = Inr []
   \<and> (\<forall>s. \<not> on_cycle chain_deps s)"
proof -
  have ok: "dependencies_ok chain_deps" by code_simp
  have en: "enumerates abc_order (JObj chain_deps)" by code_simp
  have run: "detect_circular_dependencies abc_order (JObj chain_deps) = Inr []" by code_simp
  from cycle_reported_iff [OF ok en] run have "\<forall>s. \<not> on_cycle chain_deps s"
    by simp
  with ok en run show ?thesis by simp
qed

text \<open>Claim C1 as stated fails for a self-dependency: the graph has the edge A \<rightarrow> A, a
  path of length 1 from A back to A, and nothing is reported.\<close>

theorem self_dependency_counterexample:
  "dependencies_ok self_deps \<and> enumerates [HStr ''A''] (JObj self_deps)
   \<and> (''A'', ''A'') \<in> edges self_deps
   \<and> detect_circular_dependencies [HStr ''A''] (JObj self_deps) = Inr []"
proof -
  have "(''A'', ''A'') \<in> edges self_deps"
    by (simp add: edges_def self_deps_def dependency_entry_def)
  moreover have "dependencies_ok self_deps" by code_simp
  moreover have "enumerates [HStr ''A''] (JObj self_deps)" by code_simp
  moreover have "detect_circular_dependencies [HStr ''A''] (JObj self_deps) = Inr []" by code_simp
  ultimately show ?thesis by simp
qed

theorem one_finding_per_start_witness:
  "dependencies_ok triangle_deps \<and> enumerates abc_order (JObj triangle_deps)
   \<and> detect_circular_dependencies abc_order (JObj triangle_deps)
       = Inr [map JStr [''A'', ''B'', ''C'', ''A''], map JStr [''B'', ''C'', ''A'', ''B''],
              map JStr [''C'', ''A'', ''B'', ''C'']]
   \<and> card {s. on_cycle triangle_deps s} = 3"
proof -
  have ok: "dependencies_ok triangle_deps" by code_simp
  have en: "enumerates abc_order (JObj triangle_deps)" by code_simp
  have run: "detect_circular_dependencies abc_order (JObj triangle_deps)
       = Inr [map JStr [''A'', ''B'', ''C'', ''A''], map JStr [''B'', ''C'', ''A'', ''B''],
              map JStr [''C'', ''A'', ''B'', ''C'']]" by code_simp
  from one_finding_per_start [OF ok en] run have "card {s. on_cycle triangle_deps s} = 3"
    by simp
  with ok en run show ?thesis by simp
qed

text \<open>Claim C2 as stated fails for A \<rightarrow> B \<rightarrow> C \<rightarrow> A: the one cycle is reported three
  times, once from each of its stacks, and the three findings are rotations of each
  other.\<close>

theorem rotations_counterexample:
  "dependencies_ok triangle_deps \<and> enumerates abc_order (JObj triangle_deps)
   \<and> detect_circular_dependencies abc_order (JObj triangle_deps)
       = Inr [map JStr [''A'', ''B'', ''C'', ''A''], map JStr [''B'', ''C'', ''A'', ''B''],
              map JStr [''C'', ''A'', ''B'', ''C'']]"
  by code_simp

subsection \<open>Output and dependency consistency\<close>

lemma emit_nothing [simp]: "emit [] [] st = st"
  by (simp add: emit_def)

lemma emit_emit [simp]: "emit es2 ws2 (emit es1 ws1 st) = emit (es1 @ es2) (ws1 @ ws2) st"
  by (auto simp: emit_def)



lemma for_each_emit:
  assumes "\<And>x st. x \<in> set xs \<Longrightarrow> body x st = Inr (emit (fe x) (fw x) st)"
  shows "for_each body xs st = Inr (emit (concat (map fe xs)) (concat (map fw xs)) st)"
  using assms by (induction xs arbitrary: st) simp_all

















lemma edge_errors_count:
  assumes "output_names SO (target_of dep) = Some S"
  shows "count_list (edge_errors SO A dep) (RequiredOutputMissing A (JStr x) (JStr (target_of dep)))
           = (if x \<in> S then 0 else count_list (required_of dep) x)"
proof -
  have "count_list (map (\<lambda>r. RequiredOutputMissing A (JStr r) t) (filter (\<lambda>r. r \<notin> S) rs))
          (RequiredOutputMissing A (JStr x) t) = (if x \<in> S then 0 else count_list rs x)" for rs t
    by (induction rs) auto
  with assms show ?thesis by (simp add: edge_errors_def)
qed

lemma edge_warnings_count:
  assumes "output_names SO (target_of dep) = Some S"
  shows "count_list (edge_warnings SO A dep) (OptionalOutputMissing A (JStr x) (JStr (target_of dep)))
           = (if x \<in> S then 0 else count_list (optional_of dep) x)"
proof -
  have "count_list (map (\<lambda>r. OptionalOutputMissing A (JStr r) t) (filter (\<lambda>r. r \<notin> S) rs))
          (OptionalOutputMissing A (JStr x) t) = (if x \<in> S then 0 else count_list rs x)" for rs t
    by (induction rs) auto
  with assms show ?thesis by (simp add: edge_warnings_def)
qed




subsection \<open>Export-name uniqueness\<close>















subsection \<open>Malformed input\<close>


section \<open>Adding an output under a name that is taken\<close>

text \<open>Two runs of the checks are compared step by step: a relation that holds between the
  states before a step holds between the states after it, or both steps raise the same
  exception.\<close>

lemma for_each_rel:
  assumes "R s s'"
    and "\<And>x t t'. x \<in> set xs \<Longrightarrow> R t t' \<Longrightarrow> rel_sum (=) R (body x t) (body' x t')"
  shows "rel_sum (=) R (for_each body xs s) (for_each body' xs s')"
  using assms
proof (induction xs arbitrary: s s')
  case Nil
  then show ?case by simp
next
  case (Cons x xs)
  from Cons.prems have step: "rel_sum (=) R (body x s) (body' x s')" by simp
  show ?case
  proof (cases "body x s")
    case (Inl e)
    with step show ?thesis by (cases "body' x s'") auto
  next
    case (Inr t)
    with step obtain t' where t': "body' x s' = Inr t'" "R t t'"
      by (cases "body' x s'") auto
    from Cons.IH [OF t'(2)] Cons.prems(2) Inr t'(1) show ?thesis by simp
  qed
qed


lemma bind_same:
  assumes "\<And>x. m = Inr x \<Longrightarrow> rel_sum (=) Q (f x) (f' x)"
  shows "rel_sum (=) Q (bind_e m f) (bind_e m f')"
  using assms by (cases m) (auto simp: bind_e_def)

lemma fold_rel:
  assumes "R s s'" and "\<And>x t t'. x \<in> set xs \<Longrightarrow> R t t' \<Longrightarrow> R (f x t) (f' x t')"
  shows "R (fold f xs s) (fold f' xs s')"
  using assms by (induction xs arbitrary: s s') auto



lemma agree_refl [simp]: "agree st st"
  by (simp add: agree_def)

lemma agree_flag_error: "agree st st' \<Longrightarrow> agree (flag_error d st) (flag_error d st')"
  by (simp add: agree_def verdict_and_errors_def flag_error_def add_error_def)


lemma agree_note_warning_right: "agree st st' \<Longrightarrow> agree st (note_warning d st')"
  by (simp add: agree_def verdict_and_errors_def note_warning_def add_warning_def)

lemma agree_note_warning: "agree st st' \<Longrightarrow> agree (note_warning d st) (note_warning d' st')"
  by (simp add: agree_def verdict_and_errors_def note_warning_def add_warning_def)

lemma agree_sym: "agree st st' \<Longrightarrow> agree st' st"
  by (simp add: agree_def)


lemmas fold_agree = fold_rel [where R = agree]

lemmas for_each_agree = for_each_rel [where R = agree]

lemma check_output_agree:
  assumes "agree st st'"
  shows "rel_sum (=) agree (check_output stack entry st) (check_output stack entry st')"
proof -
  have f: "agree (fold (\<lambda>field s. if \<not> has_key field (snd entry)
              then flag_error (OutputMissingField stack (fst entry) field) s else s)
            output_required_fields st)
          (fold (\<lambda>field s. if \<not> has_key field (snd entry)
              then flag_error (OutputMissingField stack (fst entry) field) s else s)
            output_required_fields st')"
    by (rule fold_agree [OF assms]) (auto intro: agree_flag_error)
  show ?thesis
  proof (cases "is_dict (snd entry)")
    case False
    then show ?thesis
      using assms by (simp add: check_output_def Let_def agree_flag_error)
  next
    case True
    have "rel_sum (=) agree
        (bind_e (py_get (snd entry) ''export_name'' (JStr [])) (\<lambda>export_name.
           if truthy export_name
           then bind_e (follows_convention export_name) (\<lambda>ok.
                  if \<not> ok
                  then bind_e (py_get (snd entry) ''name'' (JStr ''unknown'')) (\<lambda>n.
                         Inr (note_warning (NamingConvention stack n export_name) a))
                  else Inr a)
           else Inr a))
        (bind_e (py_get (snd entry) ''export_name'' (JStr [])) (\<lambda>export_name.
           if truthy export_name
           then bind_e (follows_convention export_name) (\<lambda>ok.
                  if \<not> ok
                  then bind_e (py_get (snd entry) ''name'' (JStr ''unknown'')) (\<lambda>n.
                         Inr (note_warning (NamingConvention stack n export_name) b))
                  else Inr b)
           else Inr b))" if ab: "agree a b" for a b
    proof (rule bind_same)
      fix x
      show "rel_sum (=) agree
         (if truthy x
           then bind_e (follows_convention x) (\<lambda>ok.
                  if \<not> ok
                  then bind_e (py_get (snd entry) ''name'' (JStr ''unknown'')) (\<lambda>n.
                         Inr (note_warning (NamingConvention stack n x) a))
                  else Inr a)
           else Inr a)
         (if truthy x
           then bind_e (follows_convention x) (\<lambda>ok.
                  if \<not> ok
                  then bind_e (py_get (snd entry) ''name'' (JStr ''unknown'')) (\<lambda>n.
                         Inr (note_warning (NamingConvention stack n x) b))
                  else Inr b)
           else Inr b)"
      proof (cases "truthy x")
        case False
        with ab show ?thesis by simp
      next
        case tr: True
        have "rel_sum (=) agree
           (bind_e (follows_convention x) (\<lambda>ok.
                  if \<not> ok
                  then bind_e (py_get (snd entry) ''name'' (JStr ''unknown'')) (\<lambda>n.
                         Inr (note_warning (NamingConvention stack n x) a))
                  else Inr a))
           (bind_e (follows_convention x) (\<lambda>ok.
                  if \<not> ok
                  then bind_e (py_get (snd entry) ''name'' (JStr ''unknown'')) (\<lambda>n.
                         Inr (note_warning (NamingConvention stack n x) b))
                  else Inr b))"
        proof (rule bind_same)
          fix ok
          show "rel_sum (=) agree
             (if \<not> ok
              then bind_e (py_get (snd entry) ''name'' (JStr ''unknown'')) (\<lambda>n.
                     Inr (note_warning (NamingConvention stack n x) a))
              else Inr a)
             (if \<not> ok
              then bind_e (py_get (snd entry) ''name'' (JStr ''unknown'')) (\<lambda>n.
                     Inr (note_warning (NamingConvention stack n x) b))
              else Inr b)"
            using ab
            by (cases ok) (auto intro!: bind_same agree_note_warning)
        qed
        with tr show ?thesis by simp
      qed
    qed
    from this [OF f] True show ?thesis
      by (simp add: check_output_def Let_def)
  qed
qed

lemma check_stack_outputs_agree:
  assumes "agree st st'"
  shows "rel_sum (=) agree (check_stack_outputs entry st) (check_stack_outputs entry st')"
  unfolding check_stack_outputs_def
  using assms
  by (auto split: json.splits intro!: for_each_agree check_output_agree agree_flag_error)

lemma rel_Inr: "R a b \<Longrightarrow> rel_sum (=) R (Inr a) (Inr b)"
  by simp

lemma rel_if:
  assumes "c \<Longrightarrow> rel_sum (=) R a b" and "\<not> c \<Longrightarrow> rel_sum (=) R a' b'"
  shows "rel_sum (=) R (if c then a else a') (if c then b else b')"
  using assms by simp

lemmas agree_steps = bind_same rel_if rel_Inr [where R = agree] agree_flag_error agree_note_warning









lemma start_agree: "v_errors v = v_errors v' \<Longrightarrow> agree (True, v) (True, v')"
  by (simp add: agree_def verdict_and_errors_def)


lemma validate_stack_outputs_agree:
  assumes "v_errors v = v_errors v'"
  shows "rel_sum (=) agree (validate_stack_outputs so v) (validate_stack_outputs so v')"
  unfolding validate_stack_outputs_def
  by (intro agree_steps for_each_agree check_stack_outputs_agree start_agree assms)









































lemma agree_verdict: "agree st st' \<Longrightarrow> fst st = fst st'"
  by (simp add: agree_def verdict_and_errors_def)






section \<open>Properties of the stack registry\<close>

lemma outputs_of_json_export:
  "outputs_of_json (map output_to_json outs) acc = Inr (acc @ outs)"
  by (induction outs arbitrary: acc) (simp_all add: output_of_json_def output_to_json_def bind_e_def)

lemma dependency_of_json_export:
  "dependency_of_json (dependency_to_json d) = Inr (restored_dependency d)"
  by (simp add: dependency_of_json_def dependency_to_json_def bind_e_def restored_dependency_def)

lemma dict_set_fresh: "k \<notin> fst ` set kvs \<Longrightarrow> dict_set k v kvs = kvs @ [(k, v)]"
  by (induction kvs) auto

lemma dict_set_last: "k \<notin> fst ` set pre \<Longrightarrow> dict_set k v (pre @ [(k, old)]) = pre @ [(k, v)]"
  by (induction pre) auto

lemma map_of_last: "k \<notin> fst ` set pre \<Longrightarrow> map_of (pre @ [(k, old)]) k = Some old"
  by (induction pre) auto

lemma import_stack_outputs_export:
  assumes "distinct (map fst xs)" and "fst ` set xs \<inter> fst ` set (m_stack_outputs m) = {}"
  shows "for_each import_stack_outputs
           (map (\<lambda>(stack, outputs). (stack, JList (map output_to_json outputs))) xs) m
         = Inr (m \<lparr> m_stack_outputs := m_stack_outputs m @ xs \<rparr>)"
  using assms
proof (induction xs arbitrary: m)
  case Nil
  then show ?case by simp
next
  case (Cons x xs)
  obtain s outs where x: "x = (s, outs)" by (cases x)
  let ?m1 = "m \<lparr> m_stack_outputs := m_stack_outputs m @ [(s, outs)] \<rparr>"
  have fresh: "s \<notin> fst ` set (m_stack_outputs m)"
    using Cons.prems(2) x by auto
  have step: "import_stack_outputs (s, JList (map output_to_json outs)) m = Inr ?m1"
    using fresh
    by (simp add: import_stack_outputs_def bind_e_def outputs_of_json_export
        register_stack_outputs_def dict_set_fresh)
  have "for_each import_stack_outputs
           (map (\<lambda>(stack, outputs). (stack, JList (map output_to_json outputs))) xs) ?m1
         = Inr (?m1 \<lparr> m_stack_outputs := m_stack_outputs ?m1 @ xs \<rparr>)"
    using Cons.prems x by (intro Cons.IH) auto
  then show ?case using step x by simp
qed

lemma register_dependency_new:
  "s \<notin> fst ` set (m_dependencies m) \<Longrightarrow>
   register_dependency s d m = m \<lparr> m_dependencies := m_dependencies m @ [(s, [d])] \<rparr>"
proof -
  assume fresh: "s \<notin> fst ` set (m_dependencies m)"
  then have "map_of (m_dependencies m) s = None"
    by (simp add: map_of_eq_None_iff)
  with fresh show ?thesis
    by (simp add: register_dependency_def Let_def dict_set_fresh dict_set_last map_add_def)
qed

lemma register_dependency_last:
  "s \<notin> fst ` set pre \<Longrightarrow> m_dependencies m = pre @ [(s, old)] \<Longrightarrow>
   register_dependency s d m = m \<lparr> m_dependencies := pre @ [(s, old @ [d])] \<rparr>"
proof -
  assume fresh: "s \<notin> fst ` set pre" and deps: "m_dependencies m = pre @ [(s, old)]"
  then have "map_of pre s = None"
    by (simp add: map_of_eq_None_iff)
  with fresh deps show ?thesis
    by (simp add: register_dependency_def Let_def dict_set_last map_add_def)
qed

lemma import_dependency_list_last:
  assumes "s \<notin> fst ` set pre" and "m_dependencies m = pre @ [(s, old)]"
  shows "for_each (import_dependency s) (map dependency_to_json ds) m
         = Inr (m \<lparr> m_dependencies := pre @ [(s, old @ map restored_dependency ds)] \<rparr>)"
  using assms
proof (induction ds arbitrary: m old)
  case Nil
  then show ?case by simp
next
  case (Cons d ds)
  let ?m1 = "m \<lparr> m_dependencies := pre @ [(s, old @ [restored_dependency d])] \<rparr>"
  have step: "import_dependency s (dependency_to_json d) m = Inr ?m1"
    using Cons.prems
    by (simp add: import_dependency_def bind_e_def dependency_of_json_export register_dependency_last)
  have "for_each (import_dependency s) (map dependency_to_json ds) ?m1
        = Inr (?m1 \<lparr> m_dependencies := pre @ [(s, (old @ [restored_dependency d]) @ map restored_dependency ds)] \<rparr>)"
    using Cons.prems(1) by (intro Cons.IH) auto
  then show ?case using step by simp
qed

lemma import_dependency_list:
  assumes "s \<notin> fst ` set (m_dependencies m)"
  shows "for_each (import_dependency s) (map dependency_to_json ds) m
         = Inr (if ds = [] then m
                else m \<lparr> m_dependencies := m_dependencies m @ [(s, map restored_dependency ds)] \<rparr>)"
proof (cases ds)
  case Nil
  then show ?thesis by simp
next
  case (Cons d ds')
  let ?m1 = "m \<lparr> m_dependencies := m_dependencies m @ [(s, [restored_dependency d])] \<rparr>"
  have step: "import_dependency s (dependency_to_json d) m = Inr ?m1"
    using assms
    by (simp add: import_dependency_def bind_e_def dependency_of_json_export register_dependency_new)
  have "for_each (import_dependency s) (map dependency_to_json ds') ?m1
        = Inr (?m1 \<lparr> m_dependencies := m_dependencies m @ [(s, [restored_dependency d] @ map restored_dependency ds')] \<rparr>)"
    using assms by (intro import_dependency_list_last) auto
  then show ?thesis using step Cons by simp
qed

lemma import_dependencies_export:
  assumes "distinct (map fst xs)" and "fst ` set xs \<inter> fst ` set (m_dependencies m) = {}"
  shows "for_each import_dependencies
           (map (\<lambda>(stack, deps). (stack, JList (map dependency_to_json deps))) xs) m
         = Inr (m \<lparr> m_dependencies := m_dependencies m @
                  map (\<lambda>(stack, deps). (stack, map restored_dependency deps))
                    (filter (\<lambda>(stack, deps). deps \<noteq> []) xs) \<rparr>)"
  using assms
proof (induction xs arbitrary: m)
  case Nil
  then show ?case by simp
next
  case (Cons x xs)
  obtain s ds where x: "x = (s, ds)" by (cases x)
  let ?m1 = "if ds = [] then m
             else m \<lparr> m_dependencies := m_dependencies m @ [(s, map restored_dependency ds)] \<rparr>"
  have fresh: "s \<notin> fst ` set (m_dependencies m)"
    using Cons.prems(2) x by auto
  have step: "import_dependencies (s, JList (map dependency_to_json ds)) m = Inr ?m1"
    using import_dependency_list [OF fresh, of ds]
    by (simp add: import_dependencies_def bind_e_def)
  have "for_each import_dependencies
           (map (\<lambda>(stack, deps). (stack, JList (map dependency_to_json deps))) xs) ?m1
         = Inr (?m1 \<lparr> m_dependencies := m_dependencies ?m1 @
                  map (\<lambda>(stack, deps). (stack, map restored_dependency deps))
                    (filter (\<lambda>(stack, deps). deps \<noteq> []) xs) \<rparr>)"
    using Cons.prems x by (intro Cons.IH) auto
  then show ?case using step x by simp
qed

text \<open>
  Claim C7, as amended.  Restoring a snapshot into an empty registry returns the
  per-stack output lists unchanged, with every field of every output as it was, and the
  per-stack dependency lists with \<open>stack_name\<close> and \<open>required_outputs\<close> unchanged; the
  \<open>optional_outputs\<close> of a dependency come back as \<open>x or []\<close>, so that a list that was never
  set is restored as the empty list.  (A stack bound to an empty dependency list, which
  the registration calls never produce, is not restored.)
\<close>

theorem restore_snapshot:
  assumes "manager_dicts m"
  shows "import_configuration (export_configuration m) empty_manager = Inr (restored_manager m)"
proof -
  have a: "for_each import_stack_outputs
           (map (\<lambda>(stack, outputs). (stack, JList (map output_to_json outputs))) (m_stack_outputs m))
           empty_manager
         = Inr (empty_manager \<lparr> m_stack_outputs := m_stack_outputs m \<rparr>)"
    using assms import_stack_outputs_export [of "m_stack_outputs m" empty_manager]
    by (simp add: manager_dicts_def empty_manager_def)
  have b: "for_each import_dependencies
           (map (\<lambda>(stack, deps). (stack, JList (map dependency_to_json deps))) (m_dependencies m))
           (empty_manager \<lparr> m_stack_outputs := m_stack_outputs m \<rparr>)
         = Inr (restored_manager m)"
    using assms import_dependencies_export [of "m_dependencies m"
        "empty_manager \<lparr> m_stack_outputs := m_stack_outputs m \<rparr>"]
    by (simp add: manager_dicts_def empty_manager_def restored_manager_def)
  show ?thesis
    by (simp add: import_configuration_def export_configuration_def bind_e_def a b)
qed

theorem restore_snapshot_witness:
  "manager_dicts unset_optional_manager
   \<and> import_configuration (export_configuration unset_optional_manager) empty_manager
       = Inr (restored_manager unset_optional_manager)"
proof -
  have d: "manager_dicts unset_optional_manager"
    by (simp add: manager_dicts_def unset_optional_manager_def register_dependency_def
        register_stack_outputs_def empty_manager_def Let_def)
  from d restore_snapshot [OF d] show ?thesis by simp
qed

text \<open>The round trip of claim C7 as stated fails for a dependency whose optional outputs
  were never set: they come back as the empty list.\<close>

theorem round_trip_counterexample:
  "import_configuration (export_configuration unset_optional_manager) empty_manager
     \<noteq> Inr unset_optional_manager"
  by (simp add: import_configuration_def export_configuration_def bind_e_def
      unset_optional_manager_def register_dependency_def register_stack_outputs_def
      empty_manager_def Let_def import_stack_outputs_def import_dependencies_def
      import_dependency_def output_of_json_def dependency_of_json_def
      output_to_json_def dependency_to_json_def or_empty_list_def)

text \<open>For a dependency that meets its annotations the only change is that of an unset
  list of optional outputs.\<close>

lemma restored_dependency_typed:
  assumes "typed_dependency d"
  shows "restored_dependency d =
           (if sd_optional_outputs d = JNull then d \<lparr> sd_optional_outputs := JList [] \<rparr> else d)"
proof (cases "sd_optional_outputs d")
  case (JList xs)
  then show ?thesis
    by (cases xs) (simp_all add: restored_dependency_def or_empty_list_def)
qed (use assms in \<open>simp_all add: restored_dependency_def or_empty_list_def typed_dependency_def
       is_opt_str_list_def\<close>)

text \<open>Registries built by the registration calls have dict-shaped maps and no empty
  dependency list.\<close>

lemma dict_set_keys: "fst ` set (dict_set k v kvs) = insert k (fst ` set kvs)"
  by (induction kvs) auto

lemma dict_set_distinct: "distinct (map fst kvs) \<Longrightarrow> distinct (map fst (dict_set k v kvs))"
  by (induction kvs) (auto simp: dict_set_keys)

lemma dict_set_values: "(a, b) \<in> set (dict_set k v kvs) \<Longrightarrow> (a, b) \<in> set kvs \<or> b = v"
  by (induction kvs) (auto split: if_splits)

lemma built_manager_dicts: "built m \<Longrightarrow> manager_dicts m"
  by (induction rule: built.induct)
    (auto simp: manager_dicts_def empty_manager_def register_stack_outputs_def
      register_dependency_def Let_def dict_set_distinct)

lemma register_dependency_entries:
  assumes "(s, ds) \<in> set (m_dependencies (register_dependency stack dep m))"
  shows "(s, ds) \<in> set (m_dependencies m) \<or> (\<exists>old. ds = old @ [dep])"
proof (cases "stack \<in> fst ` set (m_dependencies m)")
  case True
  with assms show ?thesis
    by (auto simp: register_dependency_def Let_def dest!: dict_set_values)
next
  case False
  with assms show ?thesis
    by (auto simp: register_dependency_new)
qed

lemma built_no_empty_list: "built m \<Longrightarrow> (s, ds) \<in> set (m_dependencies m) \<Longrightarrow> ds \<noteq> []"
proof (induction arbitrary: s ds rule: built.induct)
  case (3 m stack dep)
  from register_dependency_entries [OF 3(3)] 3(2) show ?case by auto
qed (auto simp: empty_manager_def register_stack_outputs_def)

section \<open>Properties of the orchestrator\<close>

lemma syntax_try_ok: "syntax_try V tp pp = Inr r \<Longrightarrow> pass_ok r"
  by (auto simp: syntax_try_def bind_e_def pass_ok_def failed_def split: sum.splits if_splits prod.splits)

lemma run_syntax_validation_ok: "pass_ok (run_syntax_validation V tp pp)"
  by (auto simp: run_syntax_validation_def syntax_error_result_def pass_ok_def failed_def split: sum.splits dest: syntax_try_ok)

lemma parameter_try_ok: "parameter_try V tp pp cp = Inr r \<Longrightarrow> pass_ok r"
  by (auto simp: parameter_try_def bind_e_def pass_ok_def failed_def param_error_result_def Let_def
      split: sum.splits if_splits prod.splits)

lemma run_parameter_validation_ok: "pass_ok (run_parameter_validation V tp pp cp)"
  by (auto simp: run_parameter_validation_def pass_ok_def failed_def param_error_result_def
      split: sum.splits dest: parameter_try_ok)

lemma wa_try_ok: "wa_try V tp = Inr r \<Longrightarrow> pass_ok r"
  by (auto simp: wa_try_def bind_e_def pass_ok_def failed_def split: sum.splits if_splits prod.splits)

lemma run_well_architected_validation_ok: "pass_ok (run_well_architected_validation V tp)"
  by (auto simp: run_well_architected_validation_def wa_error_result_def pass_ok_def failed_def split: sum.splits dest: wa_try_ok)

text \<open>
  Claim C6.  For three pass results of the shape the runners produce, the overall status
  is \<open>FAIL\<close> if some pass has status \<open>FAIL\<close> or \<open>ERROR\<close>, otherwise \<open>WARNING\<close> if the
  warning counts sum to more than zero, otherwise \<open>PASS\<close>; a skipped pass adds nothing to
  the error and warning totals.
\<close>

theorem overall_status_aggregation:
  assumes "pass_ok s" and "pass_ok p" and "pass_ok w"
  shows "overall_status (create_validation_summary tp pp ts s p w) =
           (if failed s \<or> failed p \<or> failed w then ''FAIL''
            else if warning_count s + warning_count p + warning_count w > 0 then ''WARNING''
            else ''PASS'')
         \<and> errors (create_validation_summary tp pp ts s p w) =
             counted_errors s + counted_errors p + counted_errors w
         \<and> warnings (create_validation_summary tp pp ts s p w) =
             counted_warnings s + counted_warnings p + counted_warnings w"
  using assms
  by (auto simp: create_validation_summary_def Let_def pass_ok_def counted_errors_def counted_warnings_def)

theorem overall_status_aggregation_witness:
  "pass_ok (pass_of ''PASS'' True 0 2) \<and> pass_ok (pass_of ''SKIPPED'' True 0 0)
   \<and> pass_ok (pass_of ''PASS'' True 0 0)
   \<and> overall_status (create_validation_summary ''t.yaml'' None ''t0''
         (pass_of ''PASS'' True 0 2) (pass_of ''SKIPPED'' True 0 0) (pass_of ''PASS'' True 0 0))
       = ''WARNING''"
proof -
  have a: "pass_ok (pass_of ''PASS'' True 0 2)"
    and b: "pass_ok (pass_of ''SKIPPED'' True 0 0)"
    and c: "pass_ok (pass_of ''PASS'' True 0 0)"
    by (simp_all add: pass_ok_def failed_def pass_of_def)
  show ?thesis
    using a b c overall_status_aggregation [OF a b c, of "''t.yaml''" None "''t0''"]
    by (simp add: failed_def pass_of_def)
qed

lemma aggregation_fail_example:
  "overall_status (create_validation_summary ''t.yaml'' None ''t0''
      (pass_of ''PASS'' True 0 5) (pass_of ''FAIL'' False 1 0) (pass_of ''PASS'' True 0 0)) = ''FAIL''"
  by (simp add: create_validation_summary_def pass_of_def Let_def)

lemma aggregation_all_skipped_example:
  "overall_status (create_validation_summary ''t.yaml'' None ''t0''
      (pass_of ''SKIPPED'' True 0 0) (pass_of ''SKIPPED'' True 0 0) (pass_of ''SKIPPED'' True 0 0))
     = ''PASS''"
  by (simp add: create_validation_summary_def pass_of_def Let_def)

lemma run_syntax_validation_status: "known_status (run_syntax_validation V tp pp)"
  by (auto simp: run_syntax_validation_def syntax_error_result_def syntax_try_def bind_e_def known_status_def
      split: sum.splits if_splits prod.splits)

lemma run_parameter_validation_status: "known_status (run_parameter_validation V tp pp cp)"
  by (auto simp: run_parameter_validation_def parameter_try_def bind_e_def known_status_def
        param_error_result_def Let_def
      split: sum.splits if_splits prod.splits)

lemma run_well_architected_validation_status: "known_status (run_well_architected_validation V tp)"
  by (auto simp: run_well_architected_validation_def wa_error_result_def wa_try_def bind_e_def known_status_def
      split: sum.splits if_splits prod.splits)

lemma summary_slots:
  "syntax_validation (run_comprehensive_validation V ts tp pp cp) = run_syntax_validation V tp pp"
  "parameter_validation (run_comprehensive_validation V ts tp pp cp) = run_parameter_validation V tp pp cp"
  "well_architected_validation (run_comprehensive_validation V ts tp pp cp) = run_well_architected_validation V tp"
  by (simp_all add: run_comprehensive_validation_def create_validation_summary_def Let_def)

lemma syntax_slot_frame:
  assumes "same_syntax_validator V V'"
  shows "run_syntax_validation V' tp pp = run_syntax_validation V tp pp"
proof -
  from assms have e: "cf_validate_template V' = cf_validate_template V"
    "pv_load_parameters V' = pv_load_parameters V"
    by (simp_all add: same_syntax_validator_def)
  have "syntax_try V' tp pp = syntax_try V tp pp"
    unfolding syntax_try_def by (simp only: e)
  then show ?thesis
    by (simp add: run_syntax_validation_def)
qed

lemma parameter_slot_frame:
  assumes "same_parameter_validator V V'"
  shows "run_parameter_validation V' tp pp cp = run_parameter_validation V tp pp cp"
proof -
  from assms have e: "pv_load_template V' = pv_load_template V"
    "pv_load_parameters V' = pv_load_parameters V"
    "pv_validate_json_config_schema V' = pv_validate_json_config_schema V"
    "pv_validate_config_consistency V' = pv_validate_config_consistency V"
    "pv_validate_parameters V' = pv_validate_parameters V"
    by (simp_all add: same_parameter_validator_def)
  have "parameter_try V' tp p cp = parameter_try V tp p cp" for p
    unfolding parameter_try_def by (simp only: e)
  then show ?thesis
    by (simp add: run_parameter_validation_def)
qed

lemma compliance_slot_frame:
  assumes "same_compliance_validator V V'"
  shows "run_well_architected_validation V' tp = run_well_architected_validation V tp"
proof -
  from assms have e: "wa_validate_cloudformation_template V' = wa_validate_cloudformation_template V"
    by (simp add: same_compliance_validator_def)
  have "wa_try V' tp = wa_try V tp"
    unfolding wa_try_def by (simp only: e)
  then show ?thesis
    by (simp add: run_well_architected_validation_def)
qed

lemma syntax_raise_result:
  assumes "syntax_try V tp pp = Inl e"
  shows "status (run_syntax_validation V tp pp) = ''ERROR''"
    and "\<not> is_valid (run_syntax_validation V tp pp)"
    and "error_count (run_syntax_validation V tp pp) = 1"
    and "warning_count (run_syntax_validation V tp pp) = 0"
    and "details (run_syntax_validation V tp pp)
           = Issues [\<lparr> severity = ''error'', category = ''system'',
                        message = syntax_failure_prefix @ str_of_exn e,
                        location = None, suggestion = None \<rparr>]"
  using assms by (simp_all add: run_syntax_validation_def syntax_error_result_def)

lemma parameter_raise_result:
  assumes "path_given pp" and "parameter_try V tp (the pp) cp = Inl e"
  shows "status (run_parameter_validation V tp pp cp) = ''ERROR''"
    and "\<not> is_valid (run_parameter_validation V tp pp cp)"
    and "error_count (run_parameter_validation V tp pp cp) = 1"
    and "warning_count (run_parameter_validation V tp pp cp) = 0"
    and "details (run_parameter_validation V tp pp cp)
           = ParamDetails [] [parameter_failure_prefix @ str_of_exn e]"
  using assms by (simp_all add: run_parameter_validation_def param_error_result_def)

lemma compliance_raise_result:
  assumes "wa_try V tp = Inl e"
  shows "status (run_well_architected_validation V tp) = ''ERROR''"
    and "\<not> is_valid (run_well_architected_validation V tp)"
    and "error_count (run_well_architected_validation V tp) = 1"
    and "warning_count (run_well_architected_validation V tp) = 0"
    and "details (run_well_architected_validation V tp)
           = Messages [wa_failure_prefix @ str_of_exn e]"
  using assms by (simp_all add: run_well_architected_validation_def wa_error_result_def)

text \<open>
  Claim C9.  Whatever the collaborators do, the run returns a summary that holds a result
  with a known status for each of the three passes.  A pass whose body raises is recorded
  with status \<open>ERROR\<close>, \<open>is_valid\<close> false, error count 1, warning count 0 and exactly one
  diagnostic, an error that carries the text of the exception.  The result of a pass
  depends on its own collaborators only: replacing the collaborators of the other passes,
  by ones that raise for instance, leaves it as it is.
\<close>

theorem pass_isolation:
  "(let S = run_comprehensive_validation V ts tp pp cp;
        S' = run_comprehensive_validation V' ts tp pp cp in
     known_status (syntax_validation S) \<and> known_status (parameter_validation S)
     \<and> known_status (well_architected_validation S)
     \<and> (\<forall>e. syntax_try V tp pp = Inl e \<longrightarrow>
            status (syntax_validation S) = ''ERROR'' \<and> \<not> is_valid (syntax_validation S)
            \<and> error_count (syntax_validation S) = 1 \<and> warning_count (syntax_validation S) = 0
            \<and> details (syntax_validation S)
                = Issues [\<lparr> severity = ''error'', category = ''system'',
                             message = syntax_failure_prefix @ str_of_exn e,
                             location = None, suggestion = None \<rparr>])
     \<and> (\<forall>e. path_given pp \<and> parameter_try V tp (the pp) cp = Inl e \<longrightarrow>
            status (parameter_validation S) = ''ERROR'' \<and> \<not> is_valid (parameter_validation S)
            \<and> error_count (parameter_validation S) = 1
            \<and> warning_count (parameter_validation S) = 0
            \<and> details (parameter_validation S)
                = ParamDetails [] [parameter_failure_prefix @ str_of_exn e])
     \<and> (\<forall>e. wa_try V tp = Inl e \<longrightarrow>
            status (well_architected_validation S) = ''ERROR''
            \<and> \<not> is_valid (well_architected_validation S)
            \<and> error_count (well_architected_validation S) = 1
            \<and> warning_count (well_architected_validation S) = 0
            \<and> details (well_architected_validation S)
                = Messages [wa_failure_prefix @ str_of_exn e])
     \<and> (same_syntax_validator V V' \<longrightarrow> syntax_validation S' = syntax_validation S)
     \<and> (same_parameter_validator V V' \<longrightarrow> parameter_validation S' = parameter_validation S)
     \<and> (same_compliance_validator V V' \<longrightarrow>
            well_architected_validation S' = well_architected_validation S))"
proof -
  let ?s = "run_syntax_validation V tp pp"
  let ?p = "run_parameter_validation V tp pp cp"
  let ?w = "run_well_architected_validation V tp"
  have s: "\<forall>e. syntax_try V tp pp = Inl e \<longrightarrow>
            status ?s = ''ERROR'' \<and> \<not> is_valid ?s
            \<and> error_count ?s = 1 \<and> warning_count ?s = 0
            \<and> details ?s
                = Issues [\<lparr> severity = ''error'', category = ''system'',
                             message = syntax_failure_prefix @ str_of_exn e,
                             location = None, suggestion = None \<rparr>]"
    by (intro allI impI conjI) (erule syntax_raise_result)+
  have p: "\<forall>e. path_given pp \<and> parameter_try V tp (the pp) cp = Inl e \<longrightarrow>
            status ?p = ''ERROR'' \<and> \<not> is_valid ?p
            \<and> error_count ?p = 1
            \<and> warning_count ?p = 0
            \<and> details ?p
                = ParamDetails [] [parameter_failure_prefix @ str_of_exn e]"
    by (intro allI impI conjI; elim conjE) (erule (1) parameter_raise_result)+
  have w: "\<forall>e. wa_try V tp = Inl e \<longrightarrow>
            status ?w = ''ERROR''
            \<and> \<not> is_valid ?w
            \<and> error_count ?w = 1
            \<and> warning_count ?w = 0
            \<and> details ?w
                = Messages [wa_failure_prefix @ str_of_exn e]"
    by (intro allI impI conjI) (erule compliance_raise_result)+
  have f1: "same_syntax_validator V V' \<longrightarrow> run_syntax_validation V' tp pp = ?s"
    by (intro impI) (erule syntax_slot_frame)
  have f2: "same_parameter_validator V V' \<longrightarrow> run_parameter_validation V' tp pp cp = ?p"
    by (intro impI) (erule parameter_slot_frame)
  have f3: "same_compliance_validator V V' \<longrightarrow> run_well_architected_validation V' tp = ?w"
    by (intro impI) (erule compliance_slot_frame)
  show ?thesis
    unfolding Let_def summary_slots
    by (intro conjI)
      (rule run_syntax_validation_status, rule run_parameter_validation_status,
        rule run_well_architected_validation_status, rule s, rule p, rule w,
        rule f1, rule f2, rule f3)
qed

text \<open>The worst case: every collaborator raises.  All three passes are recorded as
  \<open>ERROR\<close> with one diagnostic each, and the parameter pass is what it would be with a
  syntax validator that succeeds.\<close>

theorem pass_isolation_witness:
  "syntax_try raising_validators ''t.yaml'' (Some ''p.json'') = Inl (Raised ''boom'')
   \<and> path_given (Some ''p.json'')
   \<and> parameter_try raising_validators ''t.yaml'' (the (Some ''p.json'')) None = Inl (Raised ''boom'')
   \<and> wa_try raising_validators ''t.yaml'' = Inl (Raised ''boom'')
   \<and> same_parameter_validator raising_validators syntax_only_validators
   \<and> map status [syntax_validation all_raise_summary, parameter_validation all_raise_summary,
                    well_architected_validation all_raise_summary]
       = [''ERROR'', ''ERROR'', ''ERROR'']
   \<and> map error_count [syntax_validation all_raise_summary, parameter_validation all_raise_summary,
                         well_architected_validation all_raise_summary]
       = [1, 1, 1]
   \<and> details (parameter_validation all_raise_summary)
       = ParamDetails [] [parameter_failure_prefix @ ''boom'']
   \<and> parameter_validation syntax_only_summary = parameter_validation all_raise_summary"
proof -
  have a: "syntax_try raising_validators ''t.yaml'' (Some ''p.json'') = Inl (Raised ''boom'')"
    by (simp add: syntax_try_def raising_validators_def bind_e_def)
  have b: "parameter_try raising_validators ''t.yaml'' (the (Some ''p.json'')) None = Inl (Raised ''boom'')"
    by (simp add: parameter_try_def raising_validators_def bind_e_def)
  have c: "wa_try raising_validators ''t.yaml'' = Inl (Raised ''boom'')"
    by (simp add: wa_try_def raising_validators_def bind_e_def)
  have d: "path_given (Some ''p.json'')"
    by simp
  have f: "same_parameter_validator raising_validators syntax_only_validators"
    by (simp add: same_parameter_validator_def raising_validators_def syntax_only_validators_def)
  note iso = pass_isolation [of raising_validators "''t0''" "''t.yaml''" "Some ''p.json''" None
      syntax_only_validators, unfolded Let_def, folded all_raise_summary_def syntax_only_summary_def]
  from iso a have s: "status (syntax_validation all_raise_summary) = ''ERROR''"
    "error_count (syntax_validation all_raise_summary) = 1" by blast+
  from iso b d have p: "status (parameter_validation all_raise_summary) = ''ERROR''"
    "error_count (parameter_validation all_raise_summary) = 1"
    "details (parameter_validation all_raise_summary)
       = ParamDetails [] [parameter_failure_prefix @ str_of_exn (Raised ''boom'')]" by blast+
  from iso c have w: "status (well_architected_validation all_raise_summary) = ''ERROR''"
    "error_count (well_architected_validation all_raise_summary) = 1" by blast+
  from iso f have g: "parameter_validation syntax_only_summary = parameter_validation all_raise_summary"
    by blast
  from a b c d f s p w g show ?thesis by simp
qed

end
